theory Spec2Isabelle
  imports Complex_Main "HOL-Library.AList"
begin

section \<open>The synthesizer of \<^verbatim>\<open>echo_synthv6.cpp\<close>\<close>

text \<open>
  The engine is embedded with explicit state passing. In the engine C++ \<^verbatim>\<open>float\<close> and
  \<^verbatim>\<open>double\<close> values are modelled as exact reals: rounding, overflow to infinity and NaN
  are not part of that model, and every conversion between the two widths is the identity.
  The oscillator alone is embedded a second time in IEEE 754 arithmetic, for the statement
  about the range of its result, which depends on that arithmetic.
  The decimal literals of the source (\<^verbatim>\<open>0.65f\<close>, \<^verbatim>\<open>0.01f\<close>, ...) stand for the decimal
  fractions they spell. C++ \<^verbatim>\<open>int\<close> values are modelled as unbounded integers; the only
  integer arithmetic of the source is \<^verbatim>\<open>midiNote - 69\<close> on notes of the key table,
  \<^verbatim>\<open>active++\<close> (bounded by the number of voices) and the cursor update
  \<^verbatim>\<open>(reverbIndex + 1) % DELAY_SIZE\<close>, none of which can leave the 32-bit range.
  The two threads of the program are modelled as an interleaving of whole events: one output
  frame of the audio callback, and the two halves of one iteration of the keyboard loop
  (before and after its 30 ms sleep).
\<close>

subsection \<open>Configuration constants (lines 12-24)\<close>

definition SAMPLE_RATE :: int where
  "SAMPLE_RATE = 44100"

definition VOLUME :: real where
  "VOLUME = 0.65"

definition NUM_VOICES :: int where
  "NUM_VOICES = 121"

definition DELAY_SIZE :: int where
  "DELAY_SIZE = SAMPLE_RATE * 2"

definition REVERB_DECAY :: real where
  "REVERB_DECAY = 0.5"

definition ATTACK_TIME :: real where
  "ATTACK_TIME = 0.01"

definition DECAY_TIME :: real where
  "DECAY_TIME = 0.1"

definition SUSTAIN_LEVEL :: real where
  "SUSTAIN_LEVEL = 0.8"

definition RELEASE_TIME :: real where
  "RELEASE_TIME = 0.5"

subsection \<open>The key table (lines 26-30)\<close>

definition keyNoteMap :: "(char \<times> int) list" where
  "keyNoteMap =
    [(CHR ''A'', 57), (CHR ''W'', 58), (CHR ''S'', 59), (CHR ''E'', 60), (CHR ''D'', 61),
     (CHR ''F'', 62), (CHR ''T'', 63), (CHR ''G'', 64), (CHR ''Y'', 65), (CHR ''H'', 66),
     (CHR ''U'', 67), (CHR ''J'', 68), (CHR ''K'', 69), (CHR ''O'', 70), (CHR ''L'', 71),
     (CHR ''P'', 72), (CHR '';'', 73), (CHR 0x27, 74), (CHR ''Q'', 72), (CHR ''Z'', 48),
     (CHR ''X'', 50), (CHR ''C'', 52), (CHR ''V'', 53), (CHR ''B'', 55), (CHR ''N'', 57)]"

text \<open>\<^verbatim>\<open>keyNoteMap.count(c)\<close> is non-zero exactly when the lookup below is not \<open>None\<close>;
  the keys of the initialiser are pairwise distinct, so no entry shadows another.\<close>

definition keyNote :: "char \<Rightarrow> int option" where
  "keyNote c = map_of keyNoteMap c"

subsection \<open>Voices and the engine state (lines 32-50)\<close>

datatype EnvelopeStage = OFF | ATTACK | DECAY | SUSTAIN | RELEASE

record Voice =
  "note" :: int
  phase :: real
  time :: real
  stage :: EnvelopeStage
  envelope :: real
  keyDown :: bool

text \<open>The member initialisers of \<^verbatim>\<open>struct Voice\<close>: what \<^verbatim>\<open>voices[note]\<close> creates for a
  key that is not yet in the map.\<close>

definition default_Voice :: Voice where
  "default_Voice =
    \<lparr>note = 0, phase = 0, time = 0, stage = OFF, envelope = 0, keyDown = False\<rparr>"

text \<open>
  The globals of the program. \<^verbatim>\<open>voices\<close> is an \<^verbatim>\<open>unordered_map\<close> from note to voice: it is
  an association list with pairwise distinct keys, whose order is the iteration order of the
  map (a new key goes to the end; the C++ standard leaves the place open, and no statement
  below depends on it). \<^verbatim>\<open>reverbDelayBuffer\<close> is a vector, never resized.
  \<open>callback_t\<close> is the function-local \<^verbatim>\<open>static double t\<close> of \<^verbatim>\<open>audioCallback\<close>.
  \<^verbatim>\<open>activeNotes\<close> is never used and is left out.
\<close>

record Engine =
  voices :: "(int \<times> Voice) list"
  reverbDelayBuffer :: "real list"
  reverbIndex :: int
  reverbFeedback :: real
  running :: bool
  callback_t :: real

definition init_engine :: Engine where
  "init_engine =
    \<lparr>voices = [], reverbDelayBuffer = replicate (nat DELAY_SIZE) 0, reverbIndex = 0,
     reverbFeedback = REVERB_DECAY, running = True, callback_t = 0\<rparr>"

subsection \<open>Oscillator (lines 52-63)\<close>

definition midiToFreq :: "int \<Rightarrow> real" where
  "midiToFreq midiNote = 440 * 2 powr (real_of_int (midiNote - 69) / 12)"

definition rawSample :: "real \<Rightarrow> real \<Rightarrow> real" where
  "rawSample t freq = 2 * (t * freq - real_of_int \<lfloor>t * freq + 0.5\<rfloor>)"

definition getSaw :: "real \<Rightarrow> real \<Rightarrow> real" where
  "getSaw t freq = tanh (rawSample t freq * 6)"

subsection \<open>The oscillator in IEEE 754 arithmetic (lines 57-63)\<close>

text \<open>
  \<open>rawSample\<close> and \<open>getSaw\<close> above are lines 59 and 62 read over the reals; the statements
  about the detune bank and the mixer use them. The code evaluates these lines in binary64
  and converts the result to binary32. A value of either format is a real, an infinity or
  NaN (the sign of a zero is not kept). \<open>round_to p emin emax\<close> rounds an exact result to the
  format with \<open>p\<close> bits of precision and exponents \<open>emin..emax\<close>: to nearest, ties to even,
  with gradual underflow, and to an infinity when the rounded magnitude reaches
  \<open>2 ^ (emax + 1)\<close>. Every arithmetic operation is the exact one followed by this rounding,
  with the IEEE rules for infinities and NaN; \<^verbatim>\<open>floor\<close> is exact; the library's
  \<^verbatim>\<open>tanh\<close> is taken as correctly rounded. The product \<^verbatim>\<open>t * freq\<close> is rounded before it is
  used (no fused multiply-add).
\<close>

datatype fp = Finite real | PInf | NInf | NaN

definition round_half_even :: "real \<Rightarrow> int" where
  "round_half_even q =
    (let f = \<lfloor>q\<rfloor>; d = q - real_of_int f
     in if d < 1 / 2 then f else if 1 / 2 < d then f + 1 else if even f then f else f + 1)"

definition round_to :: "nat \<Rightarrow> int \<Rightarrow> int \<Rightarrow> real \<Rightarrow> fp" where
  "round_to p emin emax x =
    (if x = 0 then Finite 0
     else
       let e = max \<lfloor>log 2 \<bar>x\<bar>\<rfloor> emin;
           u = 2 powr real_of_int (e - (int p - 1));
           y = real_of_int (round_half_even (x / u)) * u
       in if 2 powr real_of_int (emax + 1) \<le> \<bar>y\<bar> then (if 0 < x then PInf else NInf)
          else Finite y)"

definition to_double :: "real \<Rightarrow> fp" where
  "to_double x = round_to 53 (- 1022) 1023 x"

definition to_float :: "real \<Rightarrow> fp" where
  "to_float x = round_to 24 (- 126) 127 x"

fun d_neg :: "fp \<Rightarrow> fp" where
  "d_neg (Finite x) = Finite (- x)"
| "d_neg PInf = NInf"
| "d_neg NInf = PInf"
| "d_neg NaN = NaN"

fun d_add :: "fp \<Rightarrow> fp \<Rightarrow> fp" where
  "d_add NaN b = NaN"
| "d_add a NaN = NaN"
| "d_add (Finite x) (Finite y) = to_double (x + y)"
| "d_add PInf NInf = NaN"
| "d_add NInf PInf = NaN"
| "d_add PInf b = PInf"
| "d_add NInf b = NInf"
| "d_add a PInf = PInf"
| "d_add a NInf = NInf"

definition d_sub :: "fp \<Rightarrow> fp \<Rightarrow> fp" where
  "d_sub a b = d_add a (d_neg b)"

fun d_mul :: "fp \<Rightarrow> fp \<Rightarrow> fp" where
  "d_mul NaN b = NaN"
| "d_mul a NaN = NaN"
| "d_mul (Finite x) (Finite y) = to_double (x * y)"
| "d_mul (Finite x) PInf = (if x = 0 then NaN else if 0 < x then PInf else NInf)"
| "d_mul (Finite x) NInf = (if x = 0 then NaN else if 0 < x then NInf else PInf)"
| "d_mul PInf (Finite y) = (if y = 0 then NaN else if 0 < y then PInf else NInf)"
| "d_mul NInf (Finite y) = (if y = 0 then NaN else if 0 < y then NInf else PInf)"
| "d_mul PInf PInf = PInf"
| "d_mul NInf NInf = PInf"
| "d_mul PInf NInf = NInf"
| "d_mul NInf PInf = NInf"

fun d_floor :: "fp \<Rightarrow> fp" where
  "d_floor (Finite x) = Finite (real_of_int \<lfloor>x\<rfloor>)"
| "d_floor a = a"

fun d_tanh :: "fp \<Rightarrow> fp" where
  "d_tanh (Finite x) = to_double (tanh x)"
| "d_tanh PInf = Finite 1"
| "d_tanh NInf = Finite (- 1)"
| "d_tanh NaN = NaN"

fun f_cast :: "fp \<Rightarrow> fp" where
  "f_cast (Finite x) = to_float x"
| "f_cast a = a"

definition rawSample_ieee :: "fp \<Rightarrow> fp \<Rightarrow> fp" where
  "rawSample_ieee t freq =
     d_mul (Finite 2) (d_sub (d_mul t freq) (d_floor (d_add (d_mul t freq) (Finite 0.5))))"

definition getSaw_ieee :: "fp \<Rightarrow> fp \<Rightarrow> fp" where
  "getSaw_ieee t freq = f_cast (d_tanh (d_mul (rawSample_ieee t freq) (Finite 6)))"

subsection \<open>The audio callback (lines 65-147)\<close>

definition dt :: real where
  "dt = 1 / real_of_int SAMPLE_RATE"

text \<open>The \<^verbatim>\<open>switch\<close> on the stage (lines 84-111). The flag of the result is \<open>True\<close> when
  the \<^verbatim>\<open>continue\<close> of line 106 is taken, which skips the rest of the loop body.\<close>

definition envelope_switch :: "Voice \<Rightarrow> Voice \<times> bool" where
  "envelope_switch voice =
    (case stage voice of
       ATTACK \<Rightarrow>
         (let voice = voice\<lparr>envelope := envelope voice + 1 / (ATTACK_TIME * real_of_int SAMPLE_RATE)\<rparr>
          in if envelope voice \<ge> 1 then (voice\<lparr>envelope := 1, stage := DECAY\<rparr>, False)
             else (voice, False))
     | DECAY \<Rightarrow>
         (let voice = voice\<lparr>envelope :=
                envelope voice - (1 - SUSTAIN_LEVEL) / (DECAY_TIME * real_of_int SAMPLE_RATE)\<rparr>
          in if envelope voice \<le> SUSTAIN_LEVEL
             then (voice\<lparr>envelope := SUSTAIN_LEVEL, stage := SUSTAIN\<rparr>, False)
             else (voice, False))
     | SUSTAIN \<Rightarrow> (voice, False)
     | RELEASE \<Rightarrow>
         (let voice = voice\<lparr>envelope :=
                envelope voice - SUSTAIN_LEVEL / (RELEASE_TIME * real_of_int SAMPLE_RATE)\<rparr>
          in if envelope voice \<le> 0 then (voice\<lparr>envelope := 0, stage := OFF\<rparr>, True)
             else (voice, False))
     | OFF \<Rightarrow> (voice, False))"

text \<open>The loop over the detuned saws (lines 117-119):
  \<^verbatim>\<open>for (int i = -13; i < 14; ++i) sample += getSaw(phase, freq + i * 0.005)\<close>.\<close>

function detune_loop :: "int \<Rightarrow> real \<Rightarrow> real \<Rightarrow> real \<Rightarrow> real" where
  "detune_loop i ph freq sample =
    (if i < 14 then detune_loop (i + 1) ph freq (sample + getSaw ph (freq + real_of_int i * 0.005))
     else sample)"
  by pat_completeness auto
termination
  by (relation "measure (\<lambda>(i, ph, freq, sample). nat (14 - i))") auto

declare detune_loop.simps [simp del]

text \<open>Lines 113-121: the sample of one voice before its envelope is applied.\<close>

definition voice_sample :: "Voice \<Rightarrow> real \<Rightarrow> real" where
  "voice_sample voice freq =
    (let ph = time voice;
         sample = detune_loop (- 13) ph freq 0
     in sample / real_of_int NUM_VOICES)"

text \<open>The body of the loop over the voices (lines 77-123), with the two accumulators
  \<^verbatim>\<open>mixed\<close> and \<^verbatim>\<open>active\<close> passed through.\<close>

definition voice_body :: "Voice \<Rightarrow> real \<Rightarrow> int \<Rightarrow> Voice \<times> real \<times> int" where
  "voice_body voice mixed active =
    (if stage voice = OFF then (voice, mixed, active)
     else
       let freq = midiToFreq (note voice);
           voice = voice\<lparr>time := time voice + dt\<rparr>
       in case envelope_switch voice of
            (voice, True) \<Rightarrow> (voice, mixed, active)
          | (voice, False) \<Rightarrow>
              (voice, mixed + voice_sample voice freq * envelope voice, active + 1))"

fun voices_loop :: "(int \<times> Voice) list \<Rightarrow> real \<Rightarrow> int \<Rightarrow> (int \<times> Voice) list \<times> real \<times> int" where
  "voices_loop [] mixed active = ([], mixed, active)"
| "voices_loop ((n, voice) # rest) mixed active =
    (case voice_body voice mixed active of
       (voice', mixed', active') \<Rightarrow>
         (case voices_loop rest mixed' active' of
            (rest', mixed'', active'') \<Rightarrow> ((n, voice') # rest', mixed'', active'')))"

text \<open>Lines 73-126: the mixed value of one frame before the reverb.\<close>

definition mix_voices :: "(int \<times> Voice) list \<Rightarrow> (int \<times> Voice) list \<times> real" where
  "mix_voices vs =
    (case voices_loop vs 0 0 of
       (vs', mixed, active) \<Rightarrow>
         (vs', if active > 0 then (mixed / real_of_int active) * VOLUME else mixed))"

text \<open>Indexing a vector outside its bounds is undefined behaviour in C++; the model
  makes it an error value.\<close>

datatype error = IndexOutOfRange

text \<open>One iteration of the loop over the frames (lines 73-143). The result carries the two
  samples written to the output buffer. The cursor is not negative where the remainder is
  taken, so C++ \<^verbatim>\<open>%\<close> and \<open>mod\<close> agree there.\<close>

definition frame :: "Engine \<Rightarrow> error + (Engine \<times> real \<times> real)" where
  "frame s =
    (case mix_voices (voices s) of
       (vs, mixed) \<Rightarrow>
         if reverbIndex s < 0 \<or> int (length (reverbDelayBuffer s)) \<le> reverbIndex s
         then Inl IndexOutOfRange
         else
           let reverbSample = reverbDelayBuffer s ! nat (reverbIndex s) * reverbFeedback s;
               mixed = mixed + reverbSample
           in Inr (s\<lparr>voices := vs,
                     reverbDelayBuffer := (reverbDelayBuffer s)[nat (reverbIndex s) := mixed],
                     reverbIndex := (reverbIndex s + 1) mod DELAY_SIZE,
                     callback_t := callback_t s + dt\<rparr>,
                   mixed, mixed))"

fun frames_loop :: "nat \<Rightarrow> Engine \<Rightarrow> real list \<Rightarrow> error + (Engine \<times> real list)" where
  "frames_loop 0 s out = Inr (s, out)"
| "frames_loop (Suc k) s out =
    (case frame s of
       Inl e \<Rightarrow> Inl e
     | Inr (s', l, r) \<Rightarrow> frames_loop k s' (out @ [l, r]))"

definition audioCallback :: "nat \<Rightarrow> Engine \<Rightarrow> error + (Engine \<times> real list)" where
  "audioCallback framesPerBuffer s = frames_loop framesPerBuffer s []"

subsection \<open>The keyboard loop (lines 156-179)\<close>

text \<open>\<^verbatim>\<open>toupper\<close> in the C locale: the letters a-z lose 32, every other character is
  kept.\<close>

definition toupper :: "char \<Rightarrow> char" where
  "toupper c =
    (let n = (of_char c :: nat) in if 97 \<le> n \<and> n \<le> 122 then char_of (n - 32) else c)"

text \<open>Lines 160-169, on the character already in upper case.\<close>

definition listener_press :: "char \<Rightarrow> Engine \<Rightarrow> Engine" where
  "listener_press c s =
    (if (of_char c :: nat) = 27 then s\<lparr>running := False\<rparr>
     else
       case keyNote c of
         None \<Rightarrow> s
       | Some n \<Rightarrow>
           let voice = (case map_of (voices s) n of None \<Rightarrow> default_Voice | Some v \<Rightarrow> v);
               voice = voice\<lparr>note := n, stage := ATTACK, keyDown := True, time := 0\<rparr>
           in s\<lparr>voices := AList.update n voice (voices s)\<rparr>)"

text \<open>Lines 173-178, on the same character.\<close>

definition listener_release :: "char \<Rightarrow> Engine \<Rightarrow> Engine" where
  "listener_release c s =
    s\<lparr>voices :=
        map (\<lambda>(n, voice).
              (n, if keyDown voice \<and> keyNote c = None
                  then voice\<lparr>stage := RELEASE, keyDown := False\<rparr> else voice))
          (voices s)\<rparr>"

text \<open>One iteration of the \<^verbatim>\<open>while (running)\<close> loop on the character that
  \<^verbatim>\<open>getchar\<close> returned, with no audio frame in between.\<close>

definition listener_iteration :: "char \<Rightarrow> Engine \<Rightarrow> Engine" where
  "listener_iteration ch s = (let c = toupper ch in listener_release c (listener_press c s))"

text \<open>The states the engine can be in: from the initial globals, any interleaving of output
  frames with the two halves of keyboard iterations.\<close>

inductive reachable :: "Engine \<Rightarrow> bool" where
  init: "reachable init_engine"
| audio: "reachable s \<Longrightarrow> frame s = Inr (s', l, r) \<Longrightarrow> reachable s'"
| press: "reachable s \<Longrightarrow> reachable (listener_press (toupper ch) s)"
| release: "reachable s \<Longrightarrow> reachable (listener_release (toupper ch) s)"

subsection \<open>Notions used in the statements\<close>

text \<open>The voice after one pass of the loop body, whatever the accumulators are.\<close>

definition advance :: "Voice \<Rightarrow> Voice" where
  "advance v = fst (voice_body v 0 0)"

text \<open>What line 122 adds to \<^verbatim>\<open>mixed\<close> for a voice that reaches it:
  \<^verbatim>\<open>sample * voice.envelope\<close>, on the fields the voice has at that line.\<close>

definition rendered :: "Voice \<Rightarrow> real" where
  "rendered v = voice_sample v (midiToFreq (note v)) * envelope v"

text \<open>The entries of the registry whose stage is not \<open>OFF\<close>.\<close>

definition sounding :: "(int \<times> Voice) list \<Rightarrow> (int \<times> Voice) list" where
  "sounding vs = filter (\<lambda>(n, v). stage v \<noteq> OFF) vs"

text \<open>The engine with the \<open>i\<close>-th entry of the registry taken out, and the samples
  written by a run of frames: a voice contributes nothing to a run when the run writes the
  same samples without it.\<close>

definition without :: "nat \<Rightarrow> Engine \<Rightarrow> Engine" where
  "without i s = s\<lparr>voices := take i (voices s) @ drop (Suc i) (voices s)\<rparr>"

definition outputs :: "error + (Engine \<times> real list) \<Rightarrow> error + real list" where
  "outputs res = (case res of Inl e \<Rightarrow> Inl e | Inr (s, out) \<Rightarrow> Inr out)"

text \<open>Runs of the two threads: a list of events, each an output frame or one half of a
  keyboard iteration on the character read; \<open>triggers n\<close> holds of the key-downs on note
  \<open>n\<close>. An entry is quiet when it is \<open>OFF\<close> or released with nothing left of its envelope.\<close>

datatype event = AudioFrame | KeyPress char | KeyPoll char

fun run :: "event list \<Rightarrow> Engine \<Rightarrow> real list \<Rightarrow> error + (Engine \<times> real list)" where
  "run [] s out = Inr (s, out)"
| "run (AudioFrame # evs) s out =
    (case frame s of
       Inl e \<Rightarrow> Inl e
     | Inr (s', l, r) \<Rightarrow> run evs s' (out @ [l, r]))"
| "run (KeyPress ch # evs) s out = run evs (listener_press (toupper ch) s) out"
| "run (KeyPoll ch # evs) s out = run evs (listener_release (toupper ch) s) out"

fun triggers :: "int \<Rightarrow> event \<Rightarrow> bool" where
  "triggers n (KeyPress ch) = (keyNote (toupper ch) = Some n)"
| "triggers n ev = False"

definition quiet :: "int \<Rightarrow> int \<times> Voice \<Rightarrow> bool" where
  "quiet n p \<longleftrightarrow>
     fst p = n \<and> (stage (snd p) = OFF \<or> stage (snd p) = RELEASE) \<and> envelope (snd p) \<le> 0"

text \<open>The invariant of the reachable states.\<close>

definition voice_ok :: "int \<times> Voice \<Rightarrow> bool" where
  "voice_ok p =
    (case p of (n, v) \<Rightarrow>
       0 \<le> envelope v \<and> envelope v \<le> 1 \<and>
       (stage v = DECAY \<longrightarrow> SUSTAIN_LEVEL \<le> envelope v) \<and>
       (stage v = RELEASE \<or> stage v = OFF \<longrightarrow> \<not> keyDown v) \<and>
       (stage v = OFF \<longrightarrow> envelope v = 0) \<and>
       note v = n)"

definition engine_inv :: "Engine \<Rightarrow> bool" where
  "engine_inv s \<longleftrightarrow>
     list_all voice_ok (voices s) \<and> distinct (map fst (voices s)) \<and>
     int (length (reverbDelayBuffer s)) = DELAY_SIZE \<and>
     0 \<le> reverbIndex s \<and> reverbIndex s < DELAY_SIZE \<and>
     reverbFeedback s = REVERB_DECAY"

subsection \<open>Example states\<close>

text \<open>The engine after the key \<^verbatim>\<open>k\<close> (note 69) was read from the initial state, after an
  unmapped character was read next, and after the frame that follows; the engine after
  \<^verbatim>\<open>a\<close> and \<^verbatim>\<open>s\<close> were read; and the voice that the first key-down creates.\<close>

definition fresh_K :: Voice where
  "fresh_K = \<lparr>note = 69, phase = 0, time = 0, stage = ATTACK, envelope = 0, keyDown = True\<rparr>"

definition held_K :: Engine where
  "held_K = listener_iteration CHR ''k'' init_engine"

definition released_K :: Engine where
  "released_K = listener_iteration CHR '' '' held_K"

definition silent_K :: Engine where
  "silent_K = released_K\<lparr>voices := [(69, fresh_K\<lparr>time := dt, stage := OFF, keyDown := False\<rparr>)],
      reverbDelayBuffer := (reverbDelayBuffer released_K)[0 := 0],
      reverbIndex := 1, callback_t := dt\<rparr>"

definition two_held :: Engine where
  "two_held = listener_iteration CHR ''s'' (listener_iteration CHR ''a'' init_engine)"

text \<open>A registry with one voice in each stage that the callback processes, and one with a
  voice held at the sustain level.\<close>

definition four_stages :: Engine where
  "four_stages = init_engine\<lparr>voices :=
     [(57, fresh_K\<lparr>note := 57\<rparr>),
      (59, fresh_K\<lparr>note := 59, stage := DECAY, envelope := 1\<rparr>),
      (60, fresh_K\<lparr>note := 60, stage := SUSTAIN, envelope := 0.8\<rparr>),
      (69, fresh_K\<lparr>stage := RELEASE, keyDown := False\<rparr>)]\<rparr>"

definition sustained_K :: Engine where
  "sustained_K = init_engine\<lparr>voices :=
     [(69, fresh_K\<lparr>time := 1, stage := SUSTAIN, envelope := 0.8\<rparr>)]\<rparr>"

section \<open>Oscillator and detune bank\<close>

lemma detune_loop_sum:
  "i \<le> 14 \<Longrightarrow> detune_loop i ph freq sample =
     sample + (\<Sum>k = i..13. getSaw ph (freq + real_of_int k * 0.005))"
proof (induction i ph freq sample rule: detune_loop.induct)
  case (1 i ph freq sample)
  show ?case
  proof (cases "i < 14")
    case True
    then have "{i..13} = insert i {i + 1..13}" by auto
    then have "(\<Sum>k = i..13. getSaw ph (freq + real_of_int k * 0.005)) =
        getSaw ph (freq + real_of_int i * 0.005) +
        (\<Sum>k = i + 1..13. getSaw ph (freq + real_of_int k * 0.005))"
      by simp
    with True "1.IH" show ?thesis
      by (subst detune_loop.simps) simp
  next
    case False
    with "1.prems" have "i = 14" by simp
    then show ?thesis by (subst detune_loop.simps) simp
  qed
qed

subsection \<open>Rounding\<close>

lemma rhe_le: "q \<le> real_of_int N \<Longrightarrow> round_half_even q \<le> N"
  unfolding round_half_even_def Let_def by (auto; linarith)

lemma rhe_ge: "real_of_int N \<le> q \<Longrightarrow> N \<le> round_half_even q"
  unfolding round_half_even_def Let_def by (auto; linarith)

lemma rhe_abs:
  assumes "\<bar>q\<bar> \<le> real_of_int N"
  shows "\<bar>round_half_even q\<bar> \<le> N"
proof -
  have "q \<le> real_of_int N" and "real_of_int (- N) \<le> q" using assms by simp_all
  then have "round_half_even q \<le> N" and "- N \<le> round_half_even q"
    by (simp_all add: rhe_le rhe_ge)
  then show ?thesis by simp
qed

lemma rhe_int: "round_half_even (real_of_int k) = k"
  by (simp add: round_half_even_def)

lemma rhe_lt: "q < real_of_int N - 1 / 2 \<Longrightarrow> round_half_even q \<le> N - 1"
  unfolding round_half_even_def Let_def by (auto; linarith)

lemma rhe_gt: "real_of_int N + 1 / 2 < q \<Longrightarrow> N + 1 \<le> round_half_even q"
  unfolding round_half_even_def Let_def by (auto; linarith)

lemma floor_log2:
  assumes "2 powr real_of_int k \<le> x" and "x < 2 powr real_of_int (k + 1)"
  shows "\<lfloor>log 2 x\<rfloor> = k"
proof -
  have "(0::real) < 2 powr real_of_int k" by simp
  then have pos: "0 < x" using assms(1) by (rule less_le_trans)
  have "real_of_int k \<le> log 2 x" using assms(1) pos by (simp add: le_log_iff)
  moreover have "log 2 x < real_of_int (k + 1)" using assms(2) pos by (simp add: log_less_iff)
  ultimately show ?thesis by (simp add: floor_eq_iff)
qed


lemma two_powr_int: "2 powr real_of_int k = (if 0 \<le> k then 2 ^ nat k else 1 / 2 ^ nat (- k))"
  by (simp add: powr_real_of_int inverse_eq_divide)

lemma of_int_abs_le: "\<bar>k\<bar> \<le> N \<Longrightarrow> \<bar>real_of_int k\<bar> \<le> real_of_int N"
  by (metis of_int_abs of_int_le_iff)

lemma round_to_unit:
  assumes v: "\<bar>v\<bar> \<le> 1" and emin: "emin \<le> 0" and emax: "0 \<le> emax" and p: "1 \<le> p"
  shows "\<exists>y. round_to p emin emax v = Finite y \<and> \<bar>y\<bar> \<le> 1"
proof (cases "v = 0")
  case True
  then show ?thesis by (simp add: round_to_def)
next
  case False
  define e where "e = max \<lfloor>log 2 \<bar>v\<bar>\<rfloor> emin"
  define m where "m = int p - 1 - e"
  define u where "u = 2 powr real_of_int (e - (int p - 1))"
  define y where "y = real_of_int (round_half_even (v / u)) * u"
  have "log 2 \<bar>v\<bar> \<le> 0" using v False by simp
  then have "\<lfloor>log 2 \<bar>v\<bar>\<rfloor> \<le> 0" by (simp add: floor_le_iff)
  then have e: "e \<le> 0" using emin by (simp add: e_def)
  then have m: "0 \<le> m" using p by (simp add: m_def)
  have u: "u = 1 / 2 ^ nat m"
  proof -
    have "e - (int p - 1) = - m" by (simp add: m_def)
    then have "u = 2 powr (- real_of_int m)" by (simp add: u_def)
    also have "\<dots> = 1 / 2 powr real_of_int m" by (simp add: powr_minus_divide)
    also have "2 powr real_of_int m = 2 ^ nat m" using m by (simp add: two_powr_int)
    finally show ?thesis .
  qed
  have "\<bar>v / u\<bar> = \<bar>v\<bar> * 2 ^ nat m" by (simp add: u abs_mult)
  also have "\<dots> \<le> 1 * 2 ^ nat m" using v by (intro mult_right_mono) simp_all
  finally have "\<bar>v / u\<bar> \<le> real_of_int (2 ^ nat m)" by simp
  then have "\<bar>round_half_even (v / u)\<bar> \<le> 2 ^ nat m" by (rule rhe_abs)
  then have "\<bar>real_of_int (round_half_even (v / u))\<bar> \<le> 2 ^ nat m"
    using of_int_abs_le by fastforce
  then have "\<bar>y\<bar> \<le> 2 ^ nat m * u"
    unfolding y_def abs_mult using u by (intro mult_mono) simp_all
  then have y: "\<bar>y\<bar> \<le> 1" by (simp add: u)
  have "1 < (2::real) powr real_of_int (emax + 1)" using emax by simp
  then have "\<not> 2 powr real_of_int (emax + 1) \<le> \<bar>y\<bar>" using y by simp
  then have "round_to p emin emax v = Finite y"
    using False by (simp add: round_to_def Let_def e_def u_def y_def)
  with y show ?thesis by blast
qed


lemma to_double_finite:
  assumes x: "\<bar>x\<bar> < 2 ^ 1024 - 2 ^ 970"
  shows "\<exists>y. to_double x = Finite y"
proof (cases "x = 0")
  case True
  then show ?thesis by (simp add: to_double_def round_to_def)
next
  case False
  define e where "e = max \<lfloor>log 2 \<bar>x\<bar>\<rfloor> (- 1022)"
  define u where "u = 2 powr real_of_int (e - (int 53 - 1))"
  define y where "y = real_of_int (round_half_even (x / u)) * u"
  have upos: "0 < u" by (simp add: u_def)
  have "\<bar>x\<bar> < 2 ^ 1024" using x by simp
  then have "log 2 \<bar>x\<bar> < 1024" using False by (simp add: log_less_iff)
  then have "\<lfloor>log 2 \<bar>x\<bar>\<rfloor> \<le> 1023" by (simp add: floor_le_iff)
  then have e: "e \<le> 1023" by (simp add: e_def)
  have "log 2 \<bar>x\<bar> < real_of_int (e + 1)"
    unfolding e_def by linarith
  then have xe: "\<bar>x\<bar> < 2 powr real_of_int (e + 1)"
    using False by (simp add: log_less_iff)
  have ylt: "\<bar>y\<bar> < 2 powr 1024"
  proof (cases "e = 1023")
    case True
    have u: "u = 2 ^ 971" by (simp add: u_def True)
    have "\<bar>x / u\<bar> < (2 ^ 1024 - 2 ^ 970) / 2 ^ 971"
      unfolding u abs_divide using x by (simp add: divide_strict_right_mono)
    also have "\<dots> = real_of_int (2 ^ 53) - 1 / 2" by simp
    finally have a: "\<bar>x / u\<bar> < real_of_int (2 ^ 53) - 1 / 2" .
    have n: "real_of_int (- (2 ^ 53)) = - real_of_int (2 ^ 53)" by (rule of_int_minus)
    have q: "x / u < real_of_int (2 ^ 53) - 1 / 2"
      "real_of_int (- (2 ^ 53)) + 1 / 2 < x / u"
      using a unfolding n by linarith+
    have "round_half_even (x / u) \<le> 2 ^ 53 - 1" using rhe_lt [OF q(1)] .
    moreover have "- (2 ^ 53) + 1 \<le> round_half_even (x / u)" using rhe_gt [OF q(2)] .
    ultimately have "\<bar>round_half_even (x / u)\<bar> \<le> 2 ^ 53 - 1" by simp
    then have "\<bar>real_of_int (round_half_even (x / u))\<bar> \<le> 2 ^ 53 - 1"
      using of_int_abs_le by fastforce
    then have "\<bar>y\<bar> \<le> (2 ^ 53 - 1) * 2 ^ 971"
      unfolding y_def abs_mult u by (intro mult_mono) simp_all
    also have "\<dots> < (2::real) powr 1024" by simp
    finally show ?thesis .
  next
    case False
    with e have e': "e \<le> 1022" by simp
    have "\<bar>x / u\<bar> < 2 powr real_of_int (e + 1) / u"
      unfolding abs_divide using xe upos by (simp add: divide_strict_right_mono)
    also have "\<dots> = 2 powr 53"
      unfolding u_def by (simp add: powr_diff [symmetric])
    finally have "\<bar>x / u\<bar> \<le> real_of_int (2 ^ 53)" by simp
    then have "\<bar>round_half_even (x / u)\<bar> \<le> 2 ^ 53" by (rule rhe_abs)
    then have "\<bar>real_of_int (round_half_even (x / u))\<bar> \<le> 2 ^ 53"
      using of_int_abs_le by fastforce
    then have "\<bar>y\<bar> \<le> 2 ^ 53 * u"
      unfolding y_def abs_mult using upos by (intro mult_mono) simp_all
    also have "\<dots> = 2 powr 53 * 2 powr real_of_int (e - 52)"
      unfolding u_def by simp
    also have "\<dots> = 2 powr (53 + real_of_int (e - 52))"
      by (simp only: powr_add)
    also have "\<dots> = 2 powr real_of_int (e + 1)"
      by (simp add: add.commute)
    also have "\<dots> \<le> 2 powr 1023" using e' by (intro powr_mono) simp_all
    also have "\<dots> < (2::real) powr 1024" by (intro powr_less_mono) simp_all
    finally show ?thesis .
  qed
  then have "\<not> 2 powr real_of_int (1023 + 1) \<le> \<bar>y\<bar>" by simp
  then have "to_double x = Finite y"
    using False by (simp add: to_double_def round_to_def Let_def e_def u_def y_def)
  then show ?thesis by blast
qed

lemma d_tanh_unit:
  assumes "a \<noteq> NaN"
  shows "\<exists>y. d_tanh a = Finite y \<and> \<bar>y\<bar> \<le> 1"
proof (cases a)
  case (Finite x)
  have "\<bar>tanh x\<bar> \<le> 1"
    using tanh_real_lt_1 [of x] tanh_real_gt_neg1 [of x] by simp
  then show ?thesis
    using Finite by (simp add: to_double_def round_to_unit)
qed (use assms in simp_all)

lemma f_cast_unit: "\<bar>y\<bar> \<le> 1 \<Longrightarrow> \<exists>z. f_cast (Finite y) = Finite z \<and> \<bar>z\<bar> \<le> 1"
  by (simp add: to_float_def round_to_unit)

lemma to_double_not_NaN: "to_double x \<noteq> NaN"
  by (simp add: to_double_def round_to_def Let_def)

lemma d_mul_const_not_NaN: "a \<noteq> NaN \<Longrightarrow> c \<noteq> 0 \<Longrightarrow> d_mul (Finite c) a \<noteq> NaN \<and> d_mul a (Finite c) \<noteq> NaN"
  by (cases a) (simp_all add: to_double_not_NaN)

lemma d_sub_finite_not_NaN: "b \<noteq> NaN \<Longrightarrow> d_sub (Finite x) b \<noteq> NaN"
  by (cases b) (simp_all add: d_sub_def to_double_not_NaN)

lemma d_floor_not_NaN: "a \<noteq> NaN \<Longrightarrow> d_floor a \<noteq> NaN"
  by (cases a) simp_all

lemma d_add_finite_not_NaN: "d_add (Finite x) (Finite y) \<noteq> NaN"
  by (simp add: to_double_not_NaN)

text \<open>
  Claim C2, amended. For every time \<open>t\<close> and frequency \<open>freq\<close> whose product does not
  overflow the range of a double (\<open>\<bar>t * freq\<bar> < 2 ^ 1024 - 2 ^ 970\<close>, the least magnitude
  that rounds to an infinity), the oscillator returns \<open>tanh (s * 6)\<close>, rounded to double and
  then to float, where \<open>s = 2 * (t * freq - floor (t * freq + 0.5))\<close> is evaluated in double
  arithmetic and is not NaN; the result is a number in \<open>[-1, 1]\<close>.
\<close>

theorem oscillator_in_range:
  assumes "\<bar>t * freq\<bar> < 2 ^ 1024 - 2 ^ 970"
  shows "\<exists>x s y. d_mul (Finite t) (Finite freq) = Finite x \<and>
           s = d_mul (Finite 2) (d_sub (Finite x) (d_floor (d_add (Finite x) (Finite 0.5)))) \<and>
           s \<noteq> NaN \<and>
           getSaw_ieee (Finite t) (Finite freq) = f_cast (d_tanh (d_mul s (Finite 6))) \<and>
           getSaw_ieee (Finite t) (Finite freq) = Finite y \<and> - 1 \<le> y \<and> y \<le> 1"
proof -
  obtain x where x: "d_mul (Finite t) (Finite freq) = Finite x"
    using to_double_finite [OF assms] by auto
  define s where "s = d_mul (Finite 2) (d_sub (Finite x) (d_floor (d_add (Finite x) (Finite 0.5))))"
  have "d_floor (d_add (Finite x) (Finite 0.5)) \<noteq> NaN"
    by (intro d_floor_not_NaN d_add_finite_not_NaN)
  then have "d_sub (Finite x) (d_floor (d_add (Finite x) (Finite 0.5))) \<noteq> NaN"
    by (rule d_sub_finite_not_NaN)
  then have s: "s \<noteq> NaN" unfolding s_def using d_mul_const_not_NaN [of _ 2] by simp
  then have "d_mul s (Finite 6) \<noteq> NaN" using d_mul_const_not_NaN [of s 6] by simp
  then obtain w where w: "d_tanh (d_mul s (Finite 6)) = Finite w" "\<bar>w\<bar> \<le> 1"
    using d_tanh_unit by blast
  obtain y where y: "f_cast (Finite w) = Finite y" "\<bar>y\<bar> \<le> 1"
    using f_cast_unit [OF w(2)] by blast
  have g: "getSaw_ieee (Finite t) (Finite freq) = f_cast (d_tanh (d_mul s (Finite 6)))"
    unfolding getSaw_ieee_def rawSample_ieee_def x s_def by (rule refl)
  have "getSaw_ieee (Finite t) (Finite freq) = Finite y \<and> - 1 \<le> y \<and> y \<le> 1"
    using g w y by auto
  with x s g show ?thesis unfolding s_def by blast
qed


lemma round_to_normal:
  assumes "2 powr real_of_int k \<le> \<bar>x\<bar>" and "\<bar>x\<bar> < 2 powr real_of_int (k + 1)"
    and "emin \<le> k"
  shows "round_to p emin emax x =
    (let u = 2 powr real_of_int (k - (int p - 1));
         y = real_of_int (round_half_even (x / u)) * u
     in if 2 powr real_of_int (emax + 1) \<le> \<bar>y\<bar> then (if 0 < x then PInf else NInf)
        else Finite y)"
proof -
  have "(0::real) < 2 powr real_of_int k" by simp
  then have "0 < \<bar>x\<bar>" using assms(1) by (rule less_le_trans)
  then have nz: "x \<noteq> 0" by simp
  have "\<lfloor>log 2 \<bar>x\<bar>\<rfloor> = k" using assms(1,2) by (rule floor_log2)
  then have "max \<lfloor>log 2 \<bar>x\<bar>\<rfloor> emin = k" using assms(3) by simp
  then show ?thesis using nz by (simp add: round_to_def Let_def)
qed

lemma overflow_product: "to_double (2 ^ 600 * 2 ^ 600) = PInf"
proof -
  have "round_to 53 (- 1022) 1023 (2 ^ 600 * 2 ^ 600) = PInf"
    by (subst round_to_normal [where k = 1200]) (simp_all add: round_half_even_def Let_def powr_minus_divide)
  then show ?thesis by (simp only: to_double_def)
qed

lemma to_double_below_half: "to_double (1 / 2 - 1 / 2 ^ 54) = Finite (1 / 2 - 1 / 2 ^ 54)"
  unfolding to_double_def
  by (subst round_to_normal [where k = "- 2"]) (simp_all add: round_half_even_def Let_def powr_minus_divide)

lemma to_double_below_one: "to_double (1 - 1 / 2 ^ 54) = Finite 1"
  unfolding to_double_def
  by (subst round_to_normal [where k = "- 1"]) (simp_all add: round_half_even_def Let_def powr_minus_divide)

lemma to_double_above_half: "to_double (- (1 / 2) - 1 / 2 ^ 54) = Finite (- (1 / 2))"
  unfolding to_double_def
  by (subst round_to_normal [where k = "- 1"]) (simp_all add: round_half_even_def Let_def powr_minus_divide)

lemma to_double_minus_one: "to_double (- 1) = Finite (- 1)"
  unfolding to_double_def
  by (subst round_to_normal [where k = 0]) (simp_all add: round_half_even_def Let_def powr_minus_divide)

lemma to_double_half: "to_double (1 / 2) = Finite (1 / 2)"
  unfolding to_double_def
  by (subst round_to_normal [where k = "- 1"]) (simp_all add: round_half_even_def Let_def powr_minus_divide)

lemma to_double_zero: "to_double 0 = Finite 0" and to_float_zero: "to_float 0 = Finite 0"
  by (simp_all add: to_double_def to_float_def round_to_def)

text \<open>
  Claim C2 as stated fails in the arithmetic of the code. The double \<open>2 ^ 600\<close> is finite,
  but as time and frequency it makes the product overflow, and the result is NaN, which is
  not in \<open>[-1, 1]\<close>. And at time \<open>1\<close> and the double \<open>1 / 2 - 1 / 2 ^ 54\<close> the code's
  sawtooth value is \<open>-1\<close>, where the formula over the reals gives \<open>1 - 1 / 2 ^ 53\<close>.
\<close>

theorem oscillator_overflow_nan:
  "to_double (2 ^ 600) = Finite (2 ^ 600) \<and>
   getSaw_ieee (Finite (2 ^ 600)) (Finite (2 ^ 600)) = NaN \<and>
   to_double (1 / 2 - 1 / 2 ^ 54) = Finite (1 / 2 - 1 / 2 ^ 54) \<and>
   rawSample_ieee (Finite 1) (Finite (1 / 2 - 1 / 2 ^ 54)) = Finite (- 1) \<and>
   rawSample 1 (1 / 2 - 1 / 2 ^ 54) = 1 - 1 / 2 ^ 53"
proof -
  have a: "to_double (2 ^ 600) = Finite (2 ^ 600)"
    unfolding to_double_def
    by (subst round_to_normal [where k = 600])
      (simp_all add: round_half_even_def Let_def powr_minus_divide)
  have "d_mul (Finite (2 ^ 600)) (Finite (2 ^ 600)) = PInf"
    by (simp only: d_mul.simps overflow_product)
  then have b: "getSaw_ieee (Finite (2 ^ 600)) (Finite (2 ^ 600)) = NaN"
    unfolding getSaw_ieee_def rawSample_ieee_def by (simp add: d_sub_def)
  define f :: real where "f = 1 / 2 - 1 / 2 ^ 54"
  have f1: "to_double f = Finite f"
    unfolding f_def by (rule to_double_below_half)
  have "f + 1 / 2 = 1 - 1 / 2 ^ 54" by (simp add: f_def)
  then have f2: "to_double (f + 1 / 2) = Finite 1"
    by (simp only: to_double_below_one)
  have "f - 1 = - (1 / 2) - 1 / 2 ^ 54" by (simp add: f_def)
  then have f3: "to_double (f - 1) = Finite (- (1 / 2))"
    by (simp only: to_double_above_half)
  have "rawSample_ieee (Finite 1) (Finite f) = Finite (- 1)"
    by (simp add: rawSample_ieee_def d_sub_def f1 f2 f3 to_double_minus_one)
  then have c: "rawSample_ieee (Finite 1) (Finite (1 / 2 - 1 / 2 ^ 54)) = Finite (- 1)"
    unfolding f_def .
  have d: "rawSample 1 (1 / 2 - 1 / 2 ^ 54) = 1 - 1 / 2 ^ 53"
    by (simp add: rawSample_def)
  show ?thesis using a b to_double_below_half c d by blast
qed

text \<open>The oscillator at time \<open>0\<close>, and at the time and frequency where rounding moves the
  sawtooth.\<close>

theorem oscillator_in_range_witness:
  "\<bar>0 * 440\<bar> < (2::real) ^ 1024 - 2 ^ 970 \<and>
   getSaw_ieee (Finite 0) (Finite 440) = Finite 0 \<and>
   \<bar>1 * (1 / 2 - 1 / 2 ^ 54)\<bar> < (2::real) ^ 1024 - 2 ^ 970 \<and>
   (\<exists>y. getSaw_ieee (Finite 1) (Finite (1 / 2 - 1 / 2 ^ 54)) = Finite y \<and> - 1 \<le> y \<and> y \<le> 1)"
proof -
  have h0: "\<bar>0 * 440\<bar> < (2::real) ^ 1024 - 2 ^ 970" by simp
  have h1: "\<bar>1 * (1 / 2 - 1 / 2 ^ 54)\<bar> < (2::real) ^ 1024 - 2 ^ 970" by simp
  have z: "getSaw_ieee (Finite 0) (Finite 440) = Finite 0"
    using oscillator_in_range [OF h0]
    by (simp add: getSaw_ieee_def rawSample_ieee_def d_sub_def to_double_zero to_double_half
        to_float_zero)
  have o: "\<exists>y. getSaw_ieee (Finite 1) (Finite (1 / 2 - 1 / 2 ^ 54)) = Finite y \<and>
      - 1 \<le> y \<and> y \<le> 1"
    using oscillator_in_range [OF h1] by blast
  show ?thesis using h0 z h1 o by blast
qed

section \<open>The loop over the voices\<close>

lemma envelope_switch_note: "note (fst (envelope_switch v)) = note v"
  by (simp add: envelope_switch_def Let_def split: EnvelopeStage.split)

lemma envelope_switch_flag:
  "snd (envelope_switch v) \<longleftrightarrow> stage v \<noteq> OFF \<and> stage (fst (envelope_switch v)) = OFF"
  by (simp add: envelope_switch_def Let_def split: EnvelopeStage.split)

lemma voice_body_acc:
  "voice_body v mixed active =
     (advance v,
      mixed + (if stage (advance v) = OFF then 0 else rendered (advance v)),
      active + (if stage (advance v) = OFF then 0 else 1))"
proof (cases "stage v = OFF")
  case True
  then show ?thesis by (simp add: voice_body_def advance_def)
next
  case False
  let ?w = "v\<lparr>time := time v + dt\<rparr>"
  obtain w' c where sw: "envelope_switch ?w = (w', c)" by (cases "envelope_switch ?w")
  have n: "note w' = note v" using envelope_switch_note [of ?w] sw by simp
  have f: "c \<longleftrightarrow> stage w' = OFF" using envelope_switch_flag [of ?w] sw False by simp
  show ?thesis using False sw n f
    by (cases c) (simp_all add: voice_body_def advance_def Let_def rendered_def)
qed

lemma voices_loop_acc:
  "voices_loop vs mixed active =
     (map (\<lambda>(n, v). (n, advance v)) vs,
      mixed + (\<Sum>(n, v)\<leftarrow>vs. if stage (advance v) = OFF then 0 else rendered (advance v)),
      active + (\<Sum>(n, v)\<leftarrow>vs. if stage (advance v) = OFF then 0 else 1))"
proof (induction vs arbitrary: mixed active)
  case Nil
  show ?case by simp
next
  case (Cons p vs)
  obtain n v where p: "p = (n, v)" by (cases p)
  show ?case unfolding p
    by (simp add: voice_body_acc [of v mixed active] Cons.IH)
qed

lemma sounding_sum:
  "(\<Sum>(n, v)\<leftarrow>vs. if stage (advance v) = OFF then 0 else rendered (advance v)) =
   (\<Sum>(n, v)\<leftarrow>sounding (map (\<lambda>(n, v). (n, advance v)) vs). rendered v)"
  by (induction vs) (auto simp: sounding_def)

lemma sounding_count:
  "(\<Sum>(n, v)\<leftarrow>vs. if stage (advance v) = OFF then 0 else (1::int)) =
   int (length (sounding (map (\<lambda>(n, v). (n, advance v)) vs)))"
  by (induction vs) (auto simp: sounding_def)

lemma mix_voices_eq:
  "mix_voices vs =
    (map (\<lambda>(n, v). (n, advance v)) vs,
     if sounding (map (\<lambda>(n, v). (n, advance v)) vs) = [] then 0
     else (\<Sum>(n, v)\<leftarrow>sounding (map (\<lambda>(n, v). (n, advance v)) vs). rendered v) /
            real (length (sounding (map (\<lambda>(n, v). (n, advance v)) vs))) * VOLUME)"
  by (simp add: mix_voices_def voices_loop_acc sounding_sum sounding_count)

text \<open>
  Claim C5. In one frame the value of \<^verbatim>\<open>mixed\<close> before the reverb is: the sum of the
  rendered samples of the voices that are not \<open>OFF\<close> once the frame has advanced them,
  divided by their number and multiplied by \<open>VOLUME\<close>, when there is such a voice, and
  \<open>0\<close> when there is none; with exactly one such voice it is that voice's rendered
  sample times \<open>VOLUME\<close>. The voices that are not \<open>OFF\<close> after the frame are exactly
  those that pass line 123, so their number is \<^verbatim>\<open>active\<close>.
\<close>

theorem mixer_normalises:
  assumes "mix_voices vs = (vs', m)"
  shows "vs' = map (\<lambda>(n, v). (n, advance v)) vs \<and>
         m = (if sounding vs' = [] then 0
              else (\<Sum>(n, v)\<leftarrow>sounding vs'. rendered v) / real (length (sounding vs')) * VOLUME) \<and>
         (\<forall>n v. sounding vs' = [(n, v)] \<longrightarrow> m = rendered v * VOLUME)"
proof -
  from assms have vs': "vs' = map (\<lambda>(n, v). (n, advance v)) vs"
    by (auto simp: mix_voices_eq)
  from assms have m: "m = (if sounding vs' = [] then 0
              else (\<Sum>(n, v)\<leftarrow>sounding vs'. rendered v) / real (length (sounding vs')) * VOLUME)"
    unfolding vs' mix_voices_eq by (elim Pair_inject) (erule sym)
  have "m = rendered v * VOLUME" if "sounding vs' = [(n, v)]" for n v
    using m that by simp
  with vs' m show ?thesis by blast
qed

lemma frame_in_range:
  assumes "0 \<le> reverbIndex s" and "reverbIndex s < int (length (reverbDelayBuffer s))"
  shows "frame s =
    Inr (s\<lparr>voices := fst (mix_voices (voices s)),
           reverbDelayBuffer := (reverbDelayBuffer s)[nat (reverbIndex s) :=
             snd (mix_voices (voices s)) + reverbDelayBuffer s ! nat (reverbIndex s) * reverbFeedback s],
           reverbIndex := (reverbIndex s + 1) mod DELAY_SIZE,
           callback_t := callback_t s + dt\<rparr>,
         snd (mix_voices (voices s)) + reverbDelayBuffer s ! nat (reverbIndex s) * reverbFeedback s,
         snd (mix_voices (voices s)) + reverbDelayBuffer s ! nat (reverbIndex s) * reverbFeedback s)"
  using assms by (simp add: frame_def Let_def split: prod.split)

lemma frame_Inr_iff:
  "(\<exists>r. frame s = Inr r) \<longleftrightarrow> 0 \<le> reverbIndex s \<and> reverbIndex s < int (length (reverbDelayBuffer s))"
  by (auto simp: frame_def Let_def split: prod.split)

text \<open>
  Claim C6. With the cursor inside the delay line, a frame writes the same value to both
  channels; that value is the mixed value plus the value stored at the cursor times the
  feedback coefficient, and it is stored back at the cursor. With a feedback coefficient of
  \<open>0\<close> the written value is the mixed value.
\<close>

theorem reverb_feedback:
  assumes "0 \<le> reverbIndex s" and "reverbIndex s < int (length (reverbDelayBuffer s))"
  shows "\<exists>s' wet. frame s = Inr (s', wet, wet) \<and>
           wet = snd (mix_voices (voices s)) +
                 reverbDelayBuffer s ! nat (reverbIndex s) * reverbFeedback s \<and>
           reverbDelayBuffer s' = (reverbDelayBuffer s)[nat (reverbIndex s) := wet] \<and>
           reverbDelayBuffer s' ! nat (reverbIndex s) = wet \<and>
           reverbFeedback s' = reverbFeedback s \<and>
           (reverbFeedback s = 0 \<longrightarrow> wet = snd (mix_voices (voices s)))"
  using assms by (simp add: frame_in_range)

section \<open>Voices that are off\<close>

lemma advance_eq:
  "advance v = (if stage v = OFF then v else fst (envelope_switch (v\<lparr>time := time v + dt\<rparr>)))"
  by (simp add: advance_def voice_body_def Let_def split: prod.split bool.split)

lemma advance_OFF: "stage v = OFF \<Longrightarrow> advance v = v"
  by (simp add: advance_eq)

lemma frame_voices:
  "frame s = Inr (s', l, r) \<Longrightarrow> voices s' = map (\<lambda>(n, v). (n, advance v)) (voices s)"
  by (auto simp: frame_def mix_voices_eq Let_def split: if_splits)

lemma frame_nth:
  assumes "frame s = Inr (s', l, r)" and "i < length (voices s)" and "voices s ! i = (n, v)"
  shows "voices s' ! i = (n, advance v)"
  using assms by (simp add: frame_voices)

lemma filter_drop_nth:
  "i < length xs \<Longrightarrow> \<not> P (xs ! i) \<Longrightarrow> filter P (take i xs @ drop (Suc i) xs) = filter P xs"
proof -
  assume i: "i < length xs" and n: "\<not> P (xs ! i)"
  have "filter P xs = filter P (take i xs @ xs ! i # drop (Suc i) xs)"
    using i by (simp add: id_take_nth_drop [symmetric])
  also have "\<dots> = filter P (take i xs @ drop (Suc i) xs)" using n by simp
  finally show ?thesis by simp
qed

lemma mix_voices_drop:
  assumes "i < length vs" and "stage (advance (snd (vs ! i))) = OFF"
  shows "mix_voices (take i vs @ drop (Suc i) vs) =
      (take i (fst (mix_voices vs)) @ drop (Suc i) (fst (mix_voices vs)), snd (mix_voices vs))"
proof -
  let ?f = "\<lambda>(n, v). (n, advance v)"
  have "\<not> (\<lambda>(n, v). stage v \<noteq> OFF) (map ?f vs ! i)"
    using assms by (simp add: case_prod_beta)
  then have "sounding (take i (map ?f vs) @ drop (Suc i) (map ?f vs)) = sounding (map ?f vs)"
    unfolding sounding_def using assms(1) by (intro filter_drop_nth) simp_all
  then have "sounding (map ?f (take i vs @ drop (Suc i) vs)) = sounding (map ?f vs)"
    by (simp add: take_map drop_map)
  then show ?thesis
    by (simp add: mix_voices_eq take_map drop_map)
qed

lemma silent_frame:
  assumes "i < length (voices s)" and "stage (advance (snd (voices s ! i))) = OFF"
  shows "frame (without i s) =
      (case frame s of Inl e \<Rightarrow> Inl e | Inr (s', l, r) \<Rightarrow> Inr (without i s', l, r))"
  using assms
  by (simp add: frame_def without_def mix_voices_drop Let_def split: prod.split)

lemma silent_frames:
  assumes "i < length (voices s)" and "stage (snd (voices s ! i)) = OFF"
  shows "frames_loop k (without i s) out =
      (case frames_loop k s out of Inl e \<Rightarrow> Inl e | Inr (s', out') \<Rightarrow> Inr (without i s', out'))"
  using assms
proof (induction k arbitrary: s out)
  case 0
  show ?case by simp
next
  case (Suc k)
  from Suc.prems have adv: "stage (advance (snd (voices s ! i))) = OFF"
    by (simp add: advance_OFF)
  show ?case
  proof (cases "frame s")
    case (Inl e)
    then show ?thesis using silent_frame [OF Suc.prems(1) adv] by simp
  next
    case (Inr res)
    obtain s' l r where res: "res = (s', l, r)" by (cases res)
    have fr: "frame s = Inr (s', l, r)" using Inr res by simp
    have len: "i < length (voices s')" using Suc.prems(1) by (simp add: frame_voices [OF fr])
    have off: "stage (snd (voices s' ! i)) = OFF"
      using Suc.prems adv by (simp add: frame_voices [OF fr] case_prod_beta)
    show ?thesis
      using silent_frame [OF Suc.prems(1) adv] fr Suc.IH [OF len off] by simp
  qed
qed

lemma silent_voice_stays:
  assumes "i < length (voices s)" and "voices s ! i = (n, v)" and "stage v = OFF"
    and "frames_loop k s out = Inr (s', out')"
  shows "voices s' ! i = (n, v)"
  using assms
proof (induction k arbitrary: s out)
  case 0
  then show ?case by simp
next
  case (Suc k)
  from Suc.prems(4) obtain s1 l r where fr: "frame s = Inr (s1, l, r)"
    and rest: "frames_loop k s1 (out @ [l, r]) = Inr (s', out')"
    by (auto split: sum.splits)
  have "voices s1 ! i = (n, v)"
    using frame_nth [OF fr Suc.prems(1,2)] Suc.prems(3) by (simp add: advance_OFF)
  moreover have "i < length (voices s1)" using Suc.prems(1) by (simp add: frame_voices [OF fr])
  ultimately show ?case using Suc.IH Suc.prems(3) rest by blast
qed

lemma finishing_voice_silent:
  assumes "i < length (voices s)" and "stage (advance (snd (voices s ! i))) = OFF"
  shows "outputs (frames_loop (Suc k) (without i s) out) = outputs (frames_loop (Suc k) s out)"
proof (cases "frame s")
  case (Inl e)
  then show ?thesis using silent_frame [OF assms] by (simp add: outputs_def)
next
  case (Inr res)
  obtain s' l r where res: "res = (s', l, r)" by (cases res)
  have fr: "frame s = Inr (s', l, r)" using Inr res by simp
  have len: "i < length (voices s')" using assms(1) by (simp add: frame_voices [OF fr])
  have off: "stage (snd (voices s' ! i)) = OFF"
    using assms by (simp add: frame_voices [OF fr] case_prod_beta)
  show ?thesis
    using silent_frame [OF assms] fr silent_frames [OF len off, of k "out @ [l, r]"]
    by (simp add: outputs_def split: sum.splits)
qed

section \<open>The envelope\<close>

lemma advance_ATTACK:
  "stage v = ATTACK \<Longrightarrow> advance v =
    (if envelope v + 1 / (ATTACK_TIME * real_of_int SAMPLE_RATE) \<ge> 1
     then v\<lparr>time := time v + dt, envelope := 1, stage := DECAY\<rparr>
     else v\<lparr>time := time v + dt,
            envelope := envelope v + 1 / (ATTACK_TIME * real_of_int SAMPLE_RATE)\<rparr>)"
  by (simp add: advance_eq envelope_switch_def Let_def)

lemma advance_DECAY:
  "stage v = DECAY \<Longrightarrow> advance v =
    (if envelope v - (1 - SUSTAIN_LEVEL) / (DECAY_TIME * real_of_int SAMPLE_RATE) \<le> SUSTAIN_LEVEL
     then v\<lparr>time := time v + dt, envelope := SUSTAIN_LEVEL, stage := SUSTAIN\<rparr>
     else v\<lparr>time := time v + dt,
            envelope := envelope v - (1 - SUSTAIN_LEVEL) / (DECAY_TIME * real_of_int SAMPLE_RATE)\<rparr>)"
  by (simp add: advance_eq envelope_switch_def Let_def)

lemma advance_SUSTAIN:
  "stage v = SUSTAIN \<Longrightarrow> advance v = v\<lparr>time := time v + dt\<rparr>"
  by (simp add: advance_eq envelope_switch_def Let_def)

lemma advance_RELEASE:
  "stage v = RELEASE \<Longrightarrow> advance v =
    (if envelope v - SUSTAIN_LEVEL / (RELEASE_TIME * real_of_int SAMPLE_RATE) \<le> 0
     then v\<lparr>time := time v + dt, envelope := 0, stage := OFF\<rparr>
     else v\<lparr>time := time v + dt,
            envelope := envelope v - SUSTAIN_LEVEL / (RELEASE_TIME * real_of_int SAMPLE_RATE)\<rparr>)"
  by (simp add: advance_eq envelope_switch_def Let_def)

section \<open>The invariant of the reachable states\<close>

lemmas envelope_consts =
  ATTACK_TIME_def DECAY_TIME_def SUSTAIN_LEVEL_def RELEASE_TIME_def SAMPLE_RATE_def

lemma voice_ok_advance: "voice_ok (n, v) \<Longrightarrow> voice_ok (n, advance v)"
  by (cases "stage v")
    (auto simp: voice_ok_def advance_OFF advance_ATTACK advance_DECAY advance_SUSTAIN
      advance_RELEASE envelope_consts)

lemma advance_monotone:
  assumes "voice_ok (n, v)"
  shows "(stage v = ATTACK \<longrightarrow> envelope v \<le> envelope (advance v)) \<and>
         (stage v = DECAY \<or> stage v = RELEASE \<longrightarrow> envelope (advance v) \<le> envelope v) \<and>
         (stage v = SUSTAIN \<or> stage v = OFF \<longrightarrow> envelope (advance v) = envelope v)"
  using assms
  by (cases "stage v")
    (auto simp: voice_ok_def advance_OFF advance_ATTACK advance_DECAY advance_SUSTAIN
      advance_RELEASE envelope_consts)

lemma list_all_voice_ok_advance:
  "list_all voice_ok vs \<Longrightarrow> list_all voice_ok (map (\<lambda>(n, v). (n, advance v)) vs)"
  by (induction vs) (auto simp: voice_ok_advance)

lemma map_fst_advance: "map fst (map (\<lambda>(n, v). (n, advance v)) vs) = map fst vs"
  by (induction vs) auto

lemma frame_inv:
  assumes "engine_inv s" and "frame s = Inr (s', l, r)"
  shows "engine_inv s'"
proof -
  have vs: "voices s' = map (\<lambda>(n, v). (n, advance v)) (voices s)"
    using frame_voices [OF assms(2)] .
  have rest: "length (reverbDelayBuffer s') = length (reverbDelayBuffer s)"
    "reverbIndex s' = (reverbIndex s + 1) mod DELAY_SIZE"
    "reverbFeedback s' = reverbFeedback s"
    using assms(2) by (auto simp: frame_def Let_def split: prod.splits if_splits)
  have pos: "0 < DELAY_SIZE" by (simp add: DELAY_SIZE_def SAMPLE_RATE_def)
  have keys: "map fst (voices s') = map fst (voices s)"
    unfolding vs by (rule map_fst_advance)
  have ok: "list_all voice_ok (voices s')"
    unfolding vs using assms(1) by (simp add: engine_inv_def list_all_voice_ok_advance)
  show ?thesis
    using assms(1) pos ok unfolding engine_inv_def keys rest by simp
qed

lemma list_all_update:
  "list_all P al \<Longrightarrow> P (k, v) \<Longrightarrow> list_all P (AList.update k v al)"
  by (induction al) auto

lemma press_voices:
  "voices (listener_press c s) =
    (case keyNote c of
       None \<Rightarrow> voices s
     | Some n \<Rightarrow>
         AList.update n
           ((case map_of (voices s) n of None \<Rightarrow> default_Voice | Some v \<Rightarrow> v)
              \<lparr>note := n, stage := ATTACK, keyDown := True, time := 0\<rparr>) (voices s))"
proof (cases "(of_char c :: nat) = 27")
  case True
  have "keyNote c = None"
  proof (rule ccontr)
    assume "keyNote c \<noteq> None"
    then have "c \<in> fst ` set keyNoteMap"
      by (auto simp: keyNote_def dest!: map_of_SomeD intro: rev_image_eqI)
    then have "(of_char c :: nat) \<noteq> 27" by (auto simp: keyNoteMap_def)
    with True show False by simp
  qed
  with True show ?thesis by (simp add: listener_press_def)
next
  case False
  then show ?thesis by (simp add: listener_press_def Let_def split: option.split)
qed

lemma press_rest:
  "reverbDelayBuffer (listener_press c s) = reverbDelayBuffer s"
  "reverbIndex (listener_press c s) = reverbIndex s"
  "reverbFeedback (listener_press c s) = reverbFeedback s"
  by (simp_all add: listener_press_def Let_def split: option.split)

lemma press_inv:
  assumes "engine_inv s"
  shows "engine_inv (listener_press c s)"
proof (cases "keyNote c")
  case None
  with assms show ?thesis by (simp add: engine_inv_def press_voices press_rest)
next
  case (Some n)
  let ?old = "case map_of (voices s) n of None \<Rightarrow> default_Voice | Some v \<Rightarrow> v"
  have env: "0 \<le> envelope ?old \<and> envelope ?old \<le> 1"
  proof (cases "map_of (voices s) n")
    case None
    then show ?thesis by (simp add: default_Voice_def)
  next
    case (Some v)
    then have "(n, v) \<in> set (voices s)" by (rule map_of_SomeD)
    with assms have "voice_ok (n, v)" by (auto simp: engine_inv_def list_all_iff)
    with Some show ?thesis by (simp add: voice_ok_def)
  qed
  then have "voice_ok (n, ?old\<lparr>note := n, stage := ATTACK, keyDown := True, time := 0\<rparr>)"
    by (simp add: voice_ok_def)
  with assms Some show ?thesis
    by (simp add: engine_inv_def press_voices press_rest list_all_update distinct_update)
qed

lemma release_keys: "map fst (voices (listener_release c s)) = map fst (voices s)"
  by (simp add: listener_release_def case_prod_beta comp_def)

lemma release_rest:
  "reverbDelayBuffer (listener_release c s) = reverbDelayBuffer s"
  "reverbIndex (listener_release c s) = reverbIndex s"
  "reverbFeedback (listener_release c s) = reverbFeedback s"
  by (simp_all add: listener_release_def)

lemma release_inv:
  assumes "engine_inv s"
  shows "engine_inv (listener_release c s)"
proof -
  have one: "voice_ok (n, v) \<Longrightarrow>
      voice_ok (n, if keyDown v \<and> keyNote c = None
                   then v\<lparr>stage := RELEASE, keyDown := False\<rparr> else v)" for n v
    by (simp add: voice_ok_def)
  have "list_all voice_ok vs \<Longrightarrow>
      list_all voice_ok (map (\<lambda>(n, voice).
        (n, if keyDown voice \<and> keyNote c = None
            then voice\<lparr>stage := RELEASE, keyDown := False\<rparr> else voice)) vs)" for vs
    by (induction vs) (auto simp: one simp del: if_split)
  then have "list_all voice_ok (voices (listener_release c s))"
    using assms by (simp add: engine_inv_def listener_release_def)
  then show ?thesis
    using assms by (simp add: engine_inv_def release_keys release_rest)
qed

lemma reachable_inv: "reachable s \<Longrightarrow> engine_inv s"
proof (induction rule: reachable.induct)
  case init
  show ?case
    by (simp add: engine_inv_def init_engine_def DELAY_SIZE_def SAMPLE_RATE_def)
next
  case (audio s s' l r)
  then show ?case by (blast intro: frame_inv)
next
  case (press s ch)
  from press.IH show ?case by (rule press_inv)
next
  case (release s ch)
  from release.IH show ?case by (rule release_inv)
qed

lemma press_lookup:
  "map_of (voices (listener_press c s)) n =
    (if keyNote c = Some n
     then Some ((case map_of (voices s) n of None \<Rightarrow> default_Voice | Some v \<Rightarrow> v)
                  \<lparr>note := n, stage := ATTACK, keyDown := True, time := 0\<rparr>)
     else map_of (voices s) n)"
  by (cases "keyNote c") (auto simp: press_voices AList.update_conv')

lemma press_keys:
  "map fst (voices (listener_press c s)) =
    (case keyNote c of
       None \<Rightarrow> map fst (voices s)
     | Some n \<Rightarrow> if n \<in> set (map fst (voices s)) then map fst (voices s)
                else map fst (voices s) @ [n])"
  by (cases "keyNote c") (simp_all add: press_voices AList.update_keys)

lemma release_envelopes:
  "map (\<lambda>(n, v). envelope v) (voices (listener_release c s)) =
   map (\<lambda>(n, v). envelope v) (voices s)"
  by (simp add: listener_release_def case_prod_beta comp_def)

text \<open>
  Claim C4. In every reachable state the envelope of every voice lies in \<open>[0, 1]\<close>. A frame
  does not lower the envelope of a voice in \<open>ATTACK\<close>, does not raise the envelope of a voice
  in \<open>DECAY\<close> or \<open>RELEASE\<close>, and keeps the envelope of a voice in \<open>SUSTAIN\<close>; the keyboard
  loop, which changes stages, changes no envelope.
\<close>

theorem envelope_bounded_monotone:
  assumes "reachable s"
  shows "(\<forall>(n, v) \<in> set (voices s). 0 \<le> envelope v \<and> envelope v \<le> 1) \<and>
    (\<forall>s' l r i n v. frame s = Inr (s', l, r) \<longrightarrow> i < length (voices s) \<longrightarrow>
        voices s ! i = (n, v) \<longrightarrow>
        (\<exists>v'. voices s' ! i = (n, v') \<and>
           (stage v = ATTACK \<longrightarrow> envelope v \<le> envelope v') \<and>
           (stage v = DECAY \<or> stage v = RELEASE \<longrightarrow> envelope v' \<le> envelope v) \<and>
           (stage v = SUSTAIN \<longrightarrow> envelope v' = envelope v))) \<and>
    (\<forall>c. map (\<lambda>(n, v). envelope v) (voices (listener_release c s)) =
          map (\<lambda>(n, v). envelope v) (voices s)) \<and>
    (\<forall>c n v. map_of (voices s) n = Some v \<longrightarrow>
        (\<exists>v'. map_of (voices (listener_press c s)) n = Some v' \<and> envelope v' = envelope v))"
proof -
  have inv: "list_all voice_ok (voices s)"
    using reachable_inv [OF assms] by (simp add: engine_inv_def)
  have bounds: "\<forall>(n, v) \<in> set (voices s). 0 \<le> envelope v \<and> envelope v \<le> 1"
    using inv by (auto simp: list_all_iff voice_ok_def)
  have step: "\<exists>v'. voices s' ! i = (n, v') \<and>
           (stage v = ATTACK \<longrightarrow> envelope v \<le> envelope v') \<and>
           (stage v = DECAY \<or> stage v = RELEASE \<longrightarrow> envelope v' \<le> envelope v) \<and>
           (stage v = SUSTAIN \<longrightarrow> envelope v' = envelope v)"
    if fr: "frame s = Inr (s', l, r)" and i: "i < length (voices s)"
      and nth: "voices s ! i = (n, v)" for s' l r i n v
  proof -
    have "(n, v) \<in> set (voices s)" using i nth by (metis nth_mem)
    then have ok: "voice_ok (n, v)" using inv by (auto simp: list_all_iff)
    show ?thesis
      using frame_nth [OF fr i nth] advance_monotone [OF ok] by auto
  qed
  have press: "\<exists>v'. map_of (voices (listener_press c s)) n = Some v' \<and> envelope v' = envelope v"
    if "map_of (voices s) n = Some v" for c n v
    using that by (simp add: press_lookup)
  show ?thesis
    using bounds step press release_envelopes by blast
qed

text \<open>
  Claim C7. In every reachable state the delay line has \<open>2 * SAMPLE_RATE\<close> elements and
  the cursor is inside it. A frame succeeds, keeps the length and moves the cursor by one
  position modulo the length (back to \<open>0\<close> from the last position); the keyboard loop
  moves neither.
\<close>

theorem delay_line_cursor:
  assumes "reachable s"
  shows "int (length (reverbDelayBuffer s)) = 2 * SAMPLE_RATE \<and>
    0 \<le> reverbIndex s \<and> reverbIndex s < int (length (reverbDelayBuffer s)) \<and>
    (\<exists>s' l r. frame s = Inr (s', l, r) \<and>
       length (reverbDelayBuffer s') = length (reverbDelayBuffer s) \<and>
       reverbIndex s' = (reverbIndex s + 1) mod int (length (reverbDelayBuffer s)) \<and>
       reverbIndex s' =
         (if reverbIndex s + 1 = int (length (reverbDelayBuffer s)) then 0 else reverbIndex s + 1)) \<and>
    (\<forall>c. reverbIndex (listener_press c s) = reverbIndex s \<and>
         reverbIndex (listener_release c s) = reverbIndex s \<and>
         length (reverbDelayBuffer (listener_press c s)) = length (reverbDelayBuffer s) \<and>
         length (reverbDelayBuffer (listener_release c s)) = length (reverbDelayBuffer s))"
proof -
  have inv: "int (length (reverbDelayBuffer s)) = DELAY_SIZE" "0 \<le> reverbIndex s"
    "reverbIndex s < DELAY_SIZE"
    using reachable_inv [OF assms] by (simp_all add: engine_inv_def)
  have len: "int (length (reverbDelayBuffer s)) = 2 * SAMPLE_RATE"
    using inv(1) by (simp add: DELAY_SIZE_def)
  have range: "reverbIndex s < int (length (reverbDelayBuffer s))"
    using inv by simp
  have wrap: "(reverbIndex s + 1) mod DELAY_SIZE =
      (if reverbIndex s + 1 = DELAY_SIZE then 0 else reverbIndex s + 1)"
    using inv(2,3) by simp
  have "\<exists>s' l r. frame s = Inr (s', l, r) \<and>
       length (reverbDelayBuffer s') = length (reverbDelayBuffer s) \<and>
       reverbIndex s' = (reverbIndex s + 1) mod int (length (reverbDelayBuffer s)) \<and>
       reverbIndex s' =
         (if reverbIndex s + 1 = int (length (reverbDelayBuffer s)) then 0 else reverbIndex s + 1)"
    unfolding frame_in_range [OF inv(2) range] inv(1) using wrap by simp
  then show ?thesis
    using len inv(2) range by (simp add: press_rest release_rest)
qed

section \<open>The keyboard loop\<close>

lemma toupper_simps:
  "toupper CHR ''k'' = CHR ''K''" "toupper CHR ''a'' = CHR ''A''" "toupper CHR ''s'' = CHR ''S''"
  "toupper CHR '' '' = CHR '' ''"
  unfolding toupper_def by (simp_all add: char_of_def bit_iff_odd)

lemma keyNote_simps:
  "keyNote CHR ''K'' = Some 69" "keyNote CHR ''A'' = Some 57" "keyNote CHR ''S'' = Some 59"
  "keyNote CHR '' '' = None"
  by (simp_all add: keyNote_def keyNoteMap_def)

lemma release_mapped: "keyNote c \<noteq> None \<Longrightarrow> listener_release c s = s"
  by (cases "keyNote c") (simp_all add: listener_release_def case_prod_beta)

lemma keyNote_not_escape: "keyNote c = Some n \<Longrightarrow> (of_char c :: nat) \<noteq> 27"
proof -
  assume "keyNote c = Some n"
  then have "c \<in> fst ` set keyNoteMap"
    by (auto simp: keyNote_def dest!: map_of_SomeD intro: rev_image_eqI)
  then show ?thesis by (auto simp: keyNoteMap_def)
qed

lemma held_K_eq:
  "held_K = init_engine\<lparr>voices := [(69, fresh_K)]\<rparr>"
  by (simp add: held_K_def listener_iteration_def toupper_simps keyNote_simps release_mapped
      listener_press_def init_engine_def default_Voice_def fresh_K_def)

lemma released_K_eq:
  "released_K = init_engine\<lparr>voices := [(69, fresh_K\<lparr>stage := RELEASE, keyDown := False\<rparr>)]\<rparr>"
  by (simp add: released_K_def held_K_eq listener_iteration_def toupper_simps keyNote_simps
      listener_press_def listener_release_def init_engine_def fresh_K_def)

lemma two_held_eq:
  "two_held = init_engine\<lparr>voices := [(57, fresh_K\<lparr>note := 57\<rparr>), (59, fresh_K\<lparr>note := 59\<rparr>)]\<rparr>"
  by (simp add: two_held_def listener_iteration_def toupper_simps keyNote_simps release_mapped
      listener_press_def init_engine_def default_Voice_def fresh_K_def)

text \<open>
  Claim C8. A keyboard iteration on a mapped key whose note is already in the registry
  leaves that entry in \<open>ATTACK\<close> with time \<open>0\<close> and the key down; its envelope (and phase)
  are what they were, whatever the envelope was. The keys of the registry and the other
  entries are unchanged.
\<close>

theorem retrigger_keeps_envelope:
  assumes "keyNote (toupper ch) = Some n" and "map_of (voices s) n = Some v"
  shows "\<exists>v'. map_of (voices (listener_iteration ch s)) n = Some v' \<and>
           stage v' = ATTACK \<and> time v' = 0 \<and> envelope v' = envelope v \<and>
           keyDown v' \<and> note v' = n \<and> phase v' = phase v \<and>
           map fst (voices (listener_iteration ch s)) = map fst (voices s) \<and>
           (\<forall>m. m \<noteq> n \<longrightarrow> map_of (voices (listener_iteration ch s)) m = map_of (voices s) m)"
proof -
  have it: "listener_iteration ch s = listener_press (toupper ch) s"
    using assms(1) by (simp add: listener_iteration_def release_mapped)
  have "n \<in> set (map fst (voices s))"
    using map_of_SomeD [OF assms(2)] by (auto intro: rev_image_eqI)
  then have keys: "map fst (voices (listener_press (toupper ch) s)) = map fst (voices s)"
    using assms(1) by (simp add: press_keys)
  show ?thesis
    unfolding it using assms keys by (simp add: press_lookup)
qed

text \<open>
  Claim C9 as stated fails: with two voices held, one iteration on an unmapped character
  releases both.
\<close>

theorem key_up_two_voices:
  "voices two_held =
     [(57, \<lparr>note = 57, phase = 0, time = 0, stage = ATTACK, envelope = 0, keyDown = True\<rparr>),
      (59, \<lparr>note = 59, phase = 0, time = 0, stage = ATTACK, envelope = 0, keyDown = True\<rparr>)] \<and>
   voices (listener_iteration CHR '' '' two_held) =
     [(57, \<lparr>note = 57, phase = 0, time = 0, stage = RELEASE, envelope = 0, keyDown = False\<rparr>),
      (59, \<lparr>note = 59, phase = 0, time = 0, stage = RELEASE, envelope = 0, keyDown = False\<rparr>)]"
  by (simp add: two_held_eq listener_iteration_def toupper_simps keyNote_simps
      listener_press_def listener_release_def init_engine_def fresh_K_def)

text \<open>
  Claim C9, amended. In one iteration of the keyboard loop the key-up detection releases
  every voice whose key is down (stage \<open>RELEASE\<close>, key up) when the character read, in upper
  case, is not in the key table, so that no key stays down; when it is in the key table the
  detection changes nothing, and the iteration is the key-down alone.
\<close>

theorem key_up_all_or_none:
  "(keyNote (toupper ch) = None \<longrightarrow>
      voices (listener_iteration ch s) =
        map (\<lambda>(n, v). (n, if keyDown v then v\<lparr>stage := RELEASE, keyDown := False\<rparr> else v))
          (voices s) \<and>
      (\<forall>(n, v) \<in> set (voices (listener_iteration ch s)). \<not> keyDown v)) \<and>
   (keyNote (toupper ch) \<noteq> None \<longrightarrow>
      listener_iteration ch s = listener_press (toupper ch) s)"
proof -
  have "voices (listener_iteration ch s) =
        map (\<lambda>(n, v). (n, if keyDown v then v\<lparr>stage := RELEASE, keyDown := False\<rparr> else v))
          (voices s)" if "keyNote (toupper ch) = None"
    using that by (simp add: listener_iteration_def listener_release_def press_voices)
  moreover have "\<forall>(n, v) \<in> set (map (\<lambda>(n, v).
      (n, if keyDown v then v\<lparr>stage := RELEASE, keyDown := False\<rparr> else v)) vs). \<not> keyDown v"
    for vs :: "(int \<times> Voice) list"
    by (induction vs) (auto split: if_splits)
  ultimately show ?thesis
    by (simp add: listener_iteration_def release_mapped)
qed

text \<open>
  Claim C10. In every reachable state the keys of the registry are distinct, and an entry
  that is \<open>OFF\<close> has envelope \<open>0\<close> and its key up. A frame keeps the keys, leaves an
  \<open>OFF\<close> entry untouched, and an entry whose release completes in it is still there,
  \<open>OFF\<close> with envelope \<open>0\<close> and the key up. Neither half of a keyboard iteration removes
  a key (a key-down can only add one at the end), and a key-down on a note that has an
  entry keeps the keys and updates that entry in place.
\<close>

theorem voice_entries_persist:
  assumes "reachable s"
  shows "distinct (map fst (voices s)) \<and>
    (\<forall>(n, v) \<in> set (voices s). stage v = OFF \<longrightarrow> envelope v = 0 \<and> \<not> keyDown v) \<and>
    (\<forall>s' l r. frame s = Inr (s', l, r) \<longrightarrow>
       map fst (voices s') = map fst (voices s) \<and>
       (\<forall>i n v. i < length (voices s) \<longrightarrow> voices s ! i = (n, v) \<longrightarrow>
          (stage v = OFF \<longrightarrow> voices s' ! i = (n, v)) \<and>
          (stage v = RELEASE \<longrightarrow> stage (snd (voices s' ! i)) = OFF \<longrightarrow>
             fst (voices s' ! i) = n \<and> envelope (snd (voices s' ! i)) = 0 \<and>
             \<not> keyDown (snd (voices s' ! i))))) \<and>
    (\<forall>c. map fst (voices (listener_release c s)) = map fst (voices s)) \<and>
    (\<forall>c. \<exists>new. map fst (voices (listener_press c s)) = map fst (voices s) @ new) \<and>
    (\<forall>c n v. keyNote c = Some n \<longrightarrow> map_of (voices s) n = Some v \<longrightarrow>
       map fst (voices (listener_press c s)) = map fst (voices s) \<and>
       map_of (voices (listener_press c s)) n =
         Some (v\<lparr>note := n, stage := ATTACK, keyDown := True, time := 0\<rparr>))"
proof -
  have inv: "list_all voice_ok (voices s)" and dist: "distinct (map fst (voices s))"
    using reachable_inv [OF assms] by (simp_all add: engine_inv_def)
  have off: "\<forall>(n, v) \<in> set (voices s). stage v = OFF \<longrightarrow> envelope v = 0 \<and> \<not> keyDown v"
    using inv by (auto simp: list_all_iff voice_ok_def)
  have fr: "map fst (voices s') = map fst (voices s) \<and>
       (\<forall>i n v. i < length (voices s) \<longrightarrow> voices s ! i = (n, v) \<longrightarrow>
          (stage v = OFF \<longrightarrow> voices s' ! i = (n, v)) \<and>
          (stage v = RELEASE \<longrightarrow> stage (snd (voices s' ! i)) = OFF \<longrightarrow>
             fst (voices s' ! i) = n \<and> envelope (snd (voices s' ! i)) = 0 \<and>
             \<not> keyDown (snd (voices s' ! i))))"
    if f: "frame s = Inr (s', l, r)" for s' l r
  proof -
    have keys: "map fst (voices s') = map fst (voices s)"
      unfolding frame_voices [OF f] by (rule map_fst_advance)
    have each: "(stage v = OFF \<longrightarrow> voices s' ! i = (n, v)) \<and>
          (stage v = RELEASE \<longrightarrow> stage (snd (voices s' ! i)) = OFF \<longrightarrow>
             fst (voices s' ! i) = n \<and> envelope (snd (voices s' ! i)) = 0 \<and>
             \<not> keyDown (snd (voices s' ! i)))"
      if i: "i < length (voices s)" and nth: "voices s ! i = (n, v)" for i n v
    proof -
      have "(n, v) \<in> set (voices s)" using i nth by (metis nth_mem)
      then have ok: "voice_ok (n, v)" using inv by (auto simp: list_all_iff)
      have ok': "voice_ok (n, advance v)" using ok by (rule voice_ok_advance)
      have nth': "voices s' ! i = (n, advance v)" using frame_nth [OF f i nth] .
      show ?thesis
        unfolding nth' using ok' by (auto simp: advance_OFF voice_ok_def)
    qed
    show ?thesis using keys each by blast
  qed
  have grow: "\<exists>new. map fst (voices (listener_press c s)) = map fst (voices s) @ new" for c
    by (cases "keyNote c") (auto simp: press_keys)
  have reuse: "map fst (voices (listener_press c s)) = map fst (voices s) \<and>
       map_of (voices (listener_press c s)) n =
         Some (v\<lparr>note := n, stage := ATTACK, keyDown := True, time := 0\<rparr>)"
    if k: "keyNote c = Some n" and m: "map_of (voices s) n = Some v" for c n v
  proof -
    have "n \<in> set (map fst (voices s))"
      using map_of_SomeD [OF m] by (auto intro: rev_image_eqI)
    then show ?thesis using k m by (simp add: press_keys press_lookup)
  qed
  show ?thesis
    using dist off fr release_keys grow reuse by blast
qed

lemma voice_sample_sum:
  "voice_sample v freq =
    (\<Sum>k = - 13..13. getSaw (time v) (freq + real_of_int k * 0.005)) / real_of_int NUM_VOICES"
  by (simp add: voice_sample_def Let_def detune_loop_sum)

lemma getSaw_pos:
  assumes "0 < t * freq" and "t * freq < 1 / 2"
  shows "0 < getSaw t freq"
proof -
  have "\<lfloor>t * freq + 0.5\<rfloor> = 0" using assms by (simp add: floor_eq_iff)
  then have "rawSample t freq = 2 * (t * freq)" by (simp add: rawSample_def)
  with assms(1) show ?thesis by (simp add: getSaw_def)
qed

lemma bank_pos: "0 < (\<Sum>k = - 13..13. getSaw (1 / 44100) (440 + real_of_int k * 0.005))"
proof (rule sum_pos)
  show "finite {- 13..13::int}" by simp
  show "{- 13..13::int} \<noteq> {}" by simp
next
  fix k :: int
  assume "k \<in> {- 13..13}"
  then have "- 13 \<le> real_of_int k" and "real_of_int k \<le> 13" by simp_all
  then have "0 < 1 / 44100 * (440 + real_of_int k * 0.005)"
    and "1 / 44100 * (440 + real_of_int k * 0.005) < 1 / 2"
    by simp_all
  then show "0 < getSaw (1 / 44100) (440 + real_of_int k * 0.005)" by (rule getSaw_pos)
qed

text \<open>
  Claim C1 on the voice that the first key-down on \<^verbatim>\<open>k\<close> creates: the first frame adds to
  \<^verbatim>\<open>mixed\<close> the sum of the 27 detuned saws divided by \<open>NUM_VOICES = 121\<close> and multiplied
  by the envelope. The sum is positive there, so this differs from the sum divided by the
  size of the bank, 27, and multiplied by the envelope.
\<close>

theorem bank_divided_by_NUM_VOICES:
  "voices held_K = [(69, fresh_K)] \<and>
   voice_body fresh_K 0 0 =
     (fresh_K\<lparr>time := 1 / 44100, envelope := 1 / 441\<rparr>,
      (\<Sum>k = - 13..13. getSaw (1 / 44100) (440 + real_of_int k * 0.005)) / 121 * (1 / 441),
      1) \<and>
   (\<Sum>k = - 13..13. getSaw (1 / 44100) (440 + real_of_int k * 0.005)) / 121 * (1 / 441) \<noteq>
   (\<Sum>k = - 13..13. getSaw (1 / 44100) (440 + real_of_int k * 0.005)) / 27 * (1 / 441)"
proof -
  have adv: "advance fresh_K = fresh_K\<lparr>time := 1 / 44100, envelope := 1 / 441\<rparr>"
    by (simp add: advance_ATTACK fresh_K_def dt_def envelope_consts)
  have body: "voice_body fresh_K 0 0 =
     (fresh_K\<lparr>time := 1 / 44100, envelope := 1 / 441\<rparr>,
      (\<Sum>k = - 13..13. getSaw (1 / 44100) (440 + real_of_int k * 0.005)) / 121 * (1 / 441),
      1)"
    unfolding voice_body_acc [of fresh_K 0 0] adv
    by (simp add: rendered_def voice_sample_sum fresh_K_def midiToFreq_def NUM_VOICES_def)
  show ?thesis using body bank_pos by (simp add: held_K_eq)
qed

section \<open>Runs of the example states\<close>

lemma reachable_iteration: "reachable s \<Longrightarrow> reachable (listener_iteration ch s)"
  unfolding listener_iteration_def Let_def by (intro reachable.release reachable.press)

lemma reachable_held_K: "reachable held_K"
  unfolding held_K_def by (intro reachable_iteration reachable.init)

lemma reachable_released_K: "reachable released_K"
  unfolding released_K_def by (intro reachable_iteration reachable_held_K)

lemma reachable_two_held: "reachable two_held"
  unfolding two_held_def by (intro reachable_iteration reachable.init)

lemma frame_released_K: "frame released_K = Inr (silent_K, 0, 0)"
proof -
  have adv: "advance (fresh_K\<lparr>stage := RELEASE, keyDown := False\<rparr>) =
      fresh_K\<lparr>time := dt, stage := OFF, keyDown := False\<rparr>"
    by (simp add: advance_RELEASE fresh_K_def envelope_consts)
  have mix: "mix_voices (voices released_K) =
      ([(69, fresh_K\<lparr>time := dt, stage := OFF, keyDown := False\<rparr>)], 0)"
    by (simp add: mix_voices_eq released_K_eq adv sounding_def)
  have rng: "0 \<le> reverbIndex released_K"
    "reverbIndex released_K < int (length (reverbDelayBuffer released_K))"
    by (simp_all add: released_K_eq init_engine_def DELAY_SIZE_def SAMPLE_RATE_def)
  show ?thesis
    unfolding frame_in_range [OF rng] mix
    by (simp add: silent_K_def released_K_eq init_engine_def DELAY_SIZE_def SAMPLE_RATE_def)
qed

lemma reachable_silent_K: "reachable silent_K"
  using reachable.audio [OF reachable_released_K frame_released_K] .

lemma frame_four_stages: "\<exists>s' l r. frame four_stages = Inr (s', l, r)"
proof -
  have "\<exists>res. frame four_stages = Inr res"
    unfolding frame_Inr_iff
    by (simp add: four_stages_def init_engine_def DELAY_SIZE_def SAMPLE_RATE_def)
  then show ?thesis by auto
qed

section \<open>Runs of events\<close>

lemma quiet_advance:
  assumes "quiet n (m, v)"
  shows "quiet n (m, advance v)" and "stage (advance v) = OFF"
  using assms
  by (auto simp: quiet_def advance_OFF advance_RELEASE envelope_consts)

lemma update_drop_nth:
  "i < length xs \<Longrightarrow> fst (xs ! i) \<noteq> k \<Longrightarrow>
    AList.update k v (take i xs @ drop (Suc i) xs) =
    take i (AList.update k v xs) @ drop (Suc i) (AList.update k v xs)"
proof (induction xs arbitrary: i)
  case Nil
  then show ?case by simp
next
  case (Cons p ps)
  show ?case
  proof (cases i)
    case 0
    with Cons.prems show ?thesis by simp
  next
    case (Suc j)
    with Cons.prems have "j < length ps" and "fst (ps ! j) \<noteq> k" by simp_all
    from Cons.IH [OF this] show ?thesis using Suc by simp
  qed
qed

lemma update_nth_other:
  "i < length xs \<Longrightarrow> fst (xs ! i) \<noteq> k \<Longrightarrow>
    i < length (AList.update k v xs) \<and> AList.update k v xs ! i = xs ! i"
proof (induction xs arbitrary: i)
  case Nil
  then show ?case by simp
next
  case (Cons p ps)
  show ?case
  proof (cases i)
    case 0
    with Cons.prems show ?thesis by simp
  next
    case (Suc j)
    with Cons.prems have j: "j < length ps" and "fst (ps ! j) \<noteq> k" by simp_all
    from Cons.IH [OF this] show ?thesis using Suc j by simp
  qed
qed

lemma map_of_drop_nth:
  "i < length xs \<Longrightarrow> fst (xs ! i) \<noteq> k \<Longrightarrow>
    map_of (take i xs @ drop (Suc i) xs) k = map_of xs k"
proof (induction xs arbitrary: i)
  case Nil
  then show ?case by simp
next
  case (Cons p ps)
  show ?case
  proof (cases i)
    case 0
    with Cons.prems show ?thesis by (cases p) simp
  next
    case (Suc j)
    with Cons.prems have "j < length ps" and "fst (ps ! j) \<noteq> k" by simp_all
    from Cons.IH [OF this] show ?thesis using Suc by (cases p) simp
  qed
qed

lemma press_without:
  assumes "i < length (voices s)" and "fst (voices s ! i) = n" and "keyNote c \<noteq> Some n"
  shows "listener_press c (without i s) = without i (listener_press c s)"
    and "i < length (voices (listener_press c s))"
    and "voices (listener_press c s) ! i = voices s ! i"
proof -
  show "listener_press c (without i s) = without i (listener_press c s)"
  proof (cases "keyNote c")
    case None
    then show ?thesis by (simp add: listener_press_def without_def)
  next
    case (Some m)
    with assms(3) have ne: "fst (voices s ! i) \<noteq> m" using assms(2) by simp
    show ?thesis
      using Some map_of_drop_nth [OF assms(1) ne] update_drop_nth [OF assms(1) ne]
      by (simp add: listener_press_def without_def Let_def)
  qed
  show "i < length (voices (listener_press c s))"
    and "voices (listener_press c s) ! i = voices s ! i"
  proof -
    have "i < length (voices (listener_press c s)) \<and> voices (listener_press c s) ! i = voices s ! i"
    proof (cases "keyNote c")
      case None
      then show ?thesis using assms(1) by (simp add: press_voices)
    next
      case (Some m)
      with assms(3) have ne: "fst (voices s ! i) \<noteq> m" using assms(2) by simp
      show ?thesis using Some update_nth_other [OF assms(1) ne] by (simp add: press_voices)
    qed
    then show "i < length (voices (listener_press c s))"
      and "voices (listener_press c s) ! i = voices s ! i" by simp_all
  qed
qed

lemma release_without:
  "listener_release c (without i s) = without i (listener_release c s)"
  by (simp add: listener_release_def without_def take_map drop_map)

lemma release_quiet:
  assumes "i < length (voices s)" and "quiet n (voices s ! i)"
  shows "i < length (voices (listener_release c s))"
    and "quiet n (voices (listener_release c s) ! i)"
  using assms by (auto simp: listener_release_def quiet_def case_prod_beta)

lemma quiet_run:
  assumes "i < length (voices s)" and "quiet n (voices s ! i)"
    and "\<not> list_ex (triggers n) evs"
  shows "run evs (without i s) out =
      (case run evs s out of Inl e \<Rightarrow> Inl e | Inr (s', out') \<Rightarrow> Inr (without i s', out'))"
  using assms
proof (induction evs arbitrary: s out)
  case Nil
  show ?case by simp
next
  case (Cons ev evs)
  from Cons.prems(3) have rest: "\<not> list_ex (triggers n) evs" and ev: "\<not> triggers n ev"
    by simp_all
  obtain m v where mv: "voices s ! i = (m, v)" by (cases "voices s ! i")
  show ?case
  proof (cases ev)
    case AudioFrame
    have q: "quiet n (m, advance v)" and off: "stage (advance (snd (voices s ! i))) = OFF"
      using quiet_advance [of n m v] Cons.prems(2) mv by simp_all
    show ?thesis
    proof (cases "frame s")
      case (Inl e)
      then show ?thesis using silent_frame [OF Cons.prems(1) off] AudioFrame by simp
    next
      case (Inr res)
      obtain s' l r where res: "res = (s', l, r)" by (cases res)
      have fr: "frame s = Inr (s', l, r)" using Inr res by simp
      have len: "i < length (voices s')" using Cons.prems(1) by (simp add: frame_voices [OF fr])
      have q': "quiet n (voices s' ! i)"
        using frame_nth [OF fr Cons.prems(1) mv] q by simp
      show ?thesis
        using silent_frame [OF Cons.prems(1) off] fr AudioFrame Cons.IH [OF len q' rest]
        by simp
    qed
  next
    case (KeyPress ch)
    with ev have k: "keyNote (toupper ch) \<noteq> Some n" by simp
    have key: "fst (voices s ! i) = n" using Cons.prems(2) by (simp add: quiet_def)
    note p = press_without [OF Cons.prems(1) key k]
    have q': "quiet n (voices (listener_press (toupper ch) s) ! i)"
      using p(3) Cons.prems(2) by simp
    show ?thesis
      using KeyPress p(1) Cons.IH [OF p(2) q' rest] by simp
  next
    case (KeyPoll ch)
    note q = release_quiet [OF Cons.prems(1,2), of "toupper ch"]
    show ?thesis
      using KeyPoll release_without [of "toupper ch" i s] Cons.IH [OF q rest] by simp
  qed
qed

lemma finishing_voice_quiet:
  assumes "i < length (voices s)" and "voices s ! i = (n, v)" and "stage (advance v) = OFF"
    and "envelope (advance v) \<le> 0" and "\<not> list_ex (triggers n) evs"
  shows "outputs (run (AudioFrame # evs) (without i s) out) =
         outputs (run (AudioFrame # evs) s out)"
proof -
  have off: "stage (advance (snd (voices s ! i))) = OFF" using assms(2,3) by simp
  show ?thesis
  proof (cases "frame s")
    case (Inl e)
    then show ?thesis using silent_frame [OF assms(1) off] by (simp add: outputs_def)
  next
    case (Inr res)
    obtain s' l r where res: "res = (s', l, r)" by (cases res)
    have fr: "frame s = Inr (s', l, r)" using Inr res by simp
    have len: "i < length (voices s')" using assms(1) by (simp add: frame_voices [OF fr])
    have q: "quiet n (voices s' ! i)"
      using frame_nth [OF fr assms(1,2)] assms(3,4) by (simp add: quiet_def)
    show ?thesis
      using silent_frame [OF assms(1) off] fr quiet_run [OF len q assms(5), of "out @ [l, r]"]
      by (simp add: outputs_def split: sum.splits)
  qed
qed


lemma pressed_silent_K:
  "listener_press (toupper CHR ''k'') silent_K = silent_K\<lparr>voices := [(69, fresh_K)]\<rparr>"
  by (simp add: toupper_simps listener_press_def keyNote_simps silent_K_def fresh_K_def)

lemma mix_fresh_K: "0 < snd (mix_voices [(69, fresh_K)])"
proof -
  have adv: "advance fresh_K = fresh_K\<lparr>time := 1 / 44100, envelope := 1 / 441\<rparr>"
    by (simp add: advance_ATTACK fresh_K_def dt_def envelope_consts)
  have st: "stage (advance fresh_K) = ATTACK"
    unfolding adv by (simp add: fresh_K_def)
  have "snd (mix_voices [(69, fresh_K)]) = rendered (advance fresh_K) * VOLUME"
    by (simp add: mix_voices_eq sounding_def st)
  also have "\<dots> =
      (\<Sum>k = - 13..13. getSaw (1 / 44100) (440 + real_of_int k * 0.005)) / 121 * (1 / 441) * VOLUME"
    unfolding adv
    by (simp add: rendered_def voice_sample_sum fresh_K_def midiToFreq_def NUM_VOICES_def)
  finally show ?thesis using bank_pos by (simp add: VOLUME_def)
qed

lemma silent_K_fields:
  "reverbIndex silent_K = 1" "callback_t silent_K = dt" "reverbFeedback silent_K = 1 / 2"
  "reverbDelayBuffer silent_K ! Suc 0 = 0" "length (reverbDelayBuffer silent_K) = 88200"
  by (simp_all add: silent_K_def released_K_eq init_engine_def DELAY_SIZE_def SAMPLE_RATE_def
      REVERB_DECAY_def)

lemma frame_pressed_silent_K:
  "frame (silent_K\<lparr>voices := vs\<rparr>) =
    Inr (silent_K\<lparr>voices := fst (mix_voices vs),
           reverbDelayBuffer := (reverbDelayBuffer silent_K)[1 := snd (mix_voices vs)],
           reverbIndex := 2, callback_t := dt + dt\<rparr>,
         snd (mix_voices vs), snd (mix_voices vs))"
proof -
  let ?s = "silent_K\<lparr>voices := vs\<rparr>"
  have rng: "0 \<le> reverbIndex ?s" "reverbIndex ?s < int (length (reverbDelayBuffer ?s))"
    by (simp_all add: silent_K_fields)
  show ?thesis
    unfolding frame_in_range [OF rng]
    by (simp add: silent_K_fields DELAY_SIZE_def SAMPLE_RATE_def)
qed

text \<open>
  Claim C3 as stated fails in its last clause: after the release of note 69 has completed
  and the entry is \<open>OFF\<close>, a key-down on \<^verbatim>\<open>k\<close> puts the same entry back in \<open>ATTACK\<close>, and
  the next frame mixes a positive sample from it, where the registry without the entry
  mixes \<open>0\<close>.
\<close>

theorem retriggered_voice_sounds:
  "run [AudioFrame] released_K [] = Inr (silent_K, [0, 0]) \<and>
   voices silent_K = [(69, fresh_K\<lparr>time := dt, stage := OFF, keyDown := False\<rparr>)] \<and>
   voices (listener_press (toupper CHR ''k'') silent_K) = [(69, fresh_K)] \<and>
   0 < snd (mix_voices (voices (listener_press (toupper CHR ''k'') silent_K))) \<and>
   snd (mix_voices (voices (without 0 (listener_press (toupper CHR ''k'') silent_K)))) = 0 \<and>
   outputs (run [AudioFrame, KeyPress CHR ''k'', AudioFrame] released_K []) =
     Inr [0, 0, snd (mix_voices [(69, fresh_K)]), snd (mix_voices [(69, fresh_K)])] \<and>
   outputs (run [AudioFrame] (listener_press (toupper CHR ''k'') silent_K) []) \<noteq>
   outputs (run [AudioFrame] (without 0 (listener_press (toupper CHR ''k'') silent_K)) [])"
proof -
  have a: "run [AudioFrame] released_K [] = Inr (silent_K, [0, 0])"
    by (simp add: frame_released_K)
  have b: "voices silent_K = [(69, fresh_K\<lparr>time := dt, stage := OFF, keyDown := False\<rparr>)]"
    by (simp add: silent_K_def)
  have c: "voices (listener_press (toupper CHR ''k'') silent_K) = [(69, fresh_K)]"
    by (simp add: pressed_silent_K)
  have d: "0 < snd (mix_voices (voices (listener_press (toupper CHR ''k'') silent_K)))"
    unfolding c by (rule mix_fresh_K)
  have w: "without 0 (listener_press (toupper CHR ''k'') silent_K) = silent_K\<lparr>voices := []\<rparr>"
    by (simp add: pressed_silent_K without_def)
  have e: "snd (mix_voices (voices (without 0 (listener_press (toupper CHR ''k'') silent_K)))) = 0"
    unfolding w by (simp add: mix_voices_eq sounding_def)
  have f: "outputs (run [AudioFrame, KeyPress CHR ''k'', AudioFrame] released_K []) =
     Inr [0, 0, snd (mix_voices [(69, fresh_K)]), snd (mix_voices [(69, fresh_K)])]"
    by (simp add: frame_released_K pressed_silent_K frame_pressed_silent_K outputs_def)
  have g: "outputs (run [AudioFrame] (listener_press (toupper CHR ''k'') silent_K) []) \<noteq>
     outputs (run [AudioFrame] (without 0 (listener_press (toupper CHR ''k'') silent_K)) [])"
  proof -
    have z: "snd (mix_voices []) = 0" by (simp add: mix_voices_eq sounding_def)
    have w': "without 0 (silent_K\<lparr>voices := [(69, fresh_K)]\<rparr>) = silent_K\<lparr>voices := []\<rparr>"
      by (simp add: without_def)
    show ?thesis
      unfolding pressed_silent_K w' using mix_fresh_K z
      by (simp add: frame_pressed_silent_K outputs_def)
  qed
  show ?thesis using a b c d e f g by blast
qed

text \<open>
  Claim C3, amended. One frame takes each voice that is not \<open>OFF\<close> through exactly one step
  of the envelope: in \<open>ATTACK\<close> the envelope grows by \<open>1 / (ATTACK_TIME * SAMPLE_RATE)\<close> and,
  once it is at least \<open>1\<close>, becomes \<open>1\<close> with the stage \<open>DECAY\<close>; in \<open>DECAY\<close> it falls by
  \<open>(1 - SUSTAIN_LEVEL) / (DECAY_TIME * SAMPLE_RATE)\<close> and, once it is at most
  \<open>SUSTAIN_LEVEL\<close>, becomes \<open>SUSTAIN_LEVEL\<close> with the stage \<open>SUSTAIN\<close>; in \<open>SUSTAIN\<close> it
  is unchanged; in \<open>RELEASE\<close> it falls by \<open>SUSTAIN_LEVEL / (RELEASE_TIME * SAMPLE_RATE)\<close>
  and, once it is at most \<open>0\<close>, becomes \<open>0\<close> with the stage \<open>OFF\<close>. In that last case
  the voice contributes nothing to this sample, nor to any later sample for as long as no
  key-down on its note triggers it again: every run of events that starts with this frame
  and has no key-down on the note (frames, key-downs on other notes and key-up polls, in
  any order) writes the samples it would write without the entry; in particular every run
  of frames alone does, and frames leave the entry as it is.
\<close>

theorem envelope_state_machine:
  assumes "frame s = Inr (s', l, r)" and "i < length (voices s)"
    and "voices s ! i = (n, v)" and "stage v \<noteq> OFF"
  shows "\<exists>v'. voices s' ! i = (n, v') \<and>
    (stage v = ATTACK \<longrightarrow>
      (if envelope v + 1 / (ATTACK_TIME * real_of_int SAMPLE_RATE) \<ge> 1
       then envelope v' = 1 \<and> stage v' = DECAY
       else envelope v' = envelope v + 1 / (ATTACK_TIME * real_of_int SAMPLE_RATE) \<and>
            stage v' = ATTACK)) \<and>
    (stage v = DECAY \<longrightarrow>
      (if envelope v - (1 - SUSTAIN_LEVEL) / (DECAY_TIME * real_of_int SAMPLE_RATE) \<le> SUSTAIN_LEVEL
       then envelope v' = SUSTAIN_LEVEL \<and> stage v' = SUSTAIN
       else envelope v' = envelope v - (1 - SUSTAIN_LEVEL) / (DECAY_TIME * real_of_int SAMPLE_RATE) \<and>
            stage v' = DECAY)) \<and>
    (stage v = SUSTAIN \<longrightarrow> envelope v' = envelope v \<and> stage v' = SUSTAIN) \<and>
    (stage v = RELEASE \<longrightarrow>
      (if envelope v - SUSTAIN_LEVEL / (RELEASE_TIME * real_of_int SAMPLE_RATE) \<le> 0
       then envelope v' = 0 \<and> stage v' = OFF \<and>
            (\<forall>evs. \<not> list_ex (triggers n) evs \<longrightarrow>
                 outputs (run (AudioFrame # evs) s []) =
                 outputs (run (AudioFrame # evs) (without i s) [])) \<and>
            (\<forall>k. outputs (frames_loop (Suc k) s []) =
                 outputs (frames_loop (Suc k) (without i s) [])) \<and>
            (\<forall>k s'' out. frames_loop k s' [] = Inr (s'', out) \<longrightarrow> voices s'' ! i = (n, v'))
       else envelope v' = envelope v - SUSTAIN_LEVEL / (RELEASE_TIME * real_of_int SAMPLE_RATE) \<and>
            stage v' = RELEASE))"
proof -
  have nth: "voices s' ! i = (n, advance v)"
    using frame_nth [OF assms(1,2,3)] .
  have len: "i < length (voices s')"
    using assms(2) by (simp add: frame_voices [OF assms(1)])
  have a: "stage v = ATTACK \<longrightarrow>
      (if envelope v + 1 / (ATTACK_TIME * real_of_int SAMPLE_RATE) \<ge> 1
       then envelope (advance v) = 1 \<and> stage (advance v) = DECAY
       else envelope (advance v) = envelope v + 1 / (ATTACK_TIME * real_of_int SAMPLE_RATE) \<and>
            stage (advance v) = ATTACK)"
    by (simp add: advance_ATTACK)
  have d: "stage v = DECAY \<longrightarrow>
      (if envelope v - (1 - SUSTAIN_LEVEL) / (DECAY_TIME * real_of_int SAMPLE_RATE) \<le> SUSTAIN_LEVEL
       then envelope (advance v) = SUSTAIN_LEVEL \<and> stage (advance v) = SUSTAIN
       else envelope (advance v) =
              envelope v - (1 - SUSTAIN_LEVEL) / (DECAY_TIME * real_of_int SAMPLE_RATE) \<and>
            stage (advance v) = DECAY)"
    by (simp add: advance_DECAY)
  have su: "stage v = SUSTAIN \<longrightarrow> envelope (advance v) = envelope v \<and> stage (advance v) = SUSTAIN"
    by (simp add: advance_SUSTAIN)
  have r: "stage v = RELEASE \<longrightarrow>
      (if envelope v - SUSTAIN_LEVEL / (RELEASE_TIME * real_of_int SAMPLE_RATE) \<le> 0
       then envelope (advance v) = 0 \<and> stage (advance v) = OFF \<and>
            (\<forall>evs. \<not> list_ex (triggers n) evs \<longrightarrow>
                 outputs (run (AudioFrame # evs) s []) =
                 outputs (run (AudioFrame # evs) (without i s) [])) \<and>
            (\<forall>k. outputs (frames_loop (Suc k) s []) =
                 outputs (frames_loop (Suc k) (without i s) [])) \<and>
            (\<forall>k s'' out. frames_loop k s' [] = Inr (s'', out) \<longrightarrow> voices s'' ! i = (n, advance v))
       else envelope (advance v) =
              envelope v - SUSTAIN_LEVEL / (RELEASE_TIME * real_of_int SAMPLE_RATE) \<and>
            stage (advance v) = RELEASE)"
  proof (intro impI)
    assume rel: "stage v = RELEASE"
    show "if envelope v - SUSTAIN_LEVEL / (RELEASE_TIME * real_of_int SAMPLE_RATE) \<le> 0
       then envelope (advance v) = 0 \<and> stage (advance v) = OFF \<and>
            (\<forall>evs. \<not> list_ex (triggers n) evs \<longrightarrow>
                 outputs (run (AudioFrame # evs) s []) =
                 outputs (run (AudioFrame # evs) (without i s) [])) \<and>
            (\<forall>k. outputs (frames_loop (Suc k) s []) =
                 outputs (frames_loop (Suc k) (without i s) [])) \<and>
            (\<forall>k s'' out. frames_loop k s' [] = Inr (s'', out) \<longrightarrow> voices s'' ! i = (n, advance v))
       else envelope (advance v) =
              envelope v - SUSTAIN_LEVEL / (RELEASE_TIME * real_of_int SAMPLE_RATE) \<and>
            stage (advance v) = RELEASE"
    proof (cases "envelope v - SUSTAIN_LEVEL / (RELEASE_TIME * real_of_int SAMPLE_RATE) \<le> 0")
      case True
      have e: "envelope (advance v) = 0" and o: "stage (advance v) = OFF"
        using rel True by (simp_all add: advance_RELEASE)
      have o': "stage (advance (snd (voices s ! i))) = OFF" using o assms(3) by simp
      have out: "outputs (frames_loop (Suc k) s []) = outputs (frames_loop (Suc k) (without i s) [])"
        for k using finishing_voice_silent [OF assms(2) o', of k "[]"] by simp
      have stay: "voices s'' ! i = (n, advance v)"
        if "frames_loop k s' [] = Inr (s'', out)" for k s'' out
        using silent_voice_stays [OF len nth o that] .
      have runs: "outputs (run (AudioFrame # evs) s []) =
          outputs (run (AudioFrame # evs) (without i s) [])"
        if "\<not> list_ex (triggers n) evs" for evs
        using finishing_voice_quiet [OF assms(2,3) o _ that, of "[]"] e by simp
      show ?thesis using True e o out stay runs by auto
    next
      case False
      then show ?thesis using rel by (simp add: advance_RELEASE)
    qed
  qed
  show ?thesis using nth a d su r by blast
qed

text \<open>The four steps on a registry with one voice in each stage, and a run with a key-down on
  another note and a key-up poll after the release has completed.\<close>

theorem envelope_state_machine_witness:
  "\<exists>s' l r. frame four_stages = Inr (s', l, r) \<and>
     (\<exists>v'. voices s' ! 0 = (57, v') \<and> envelope v' = 1 / 441 \<and> stage v' = ATTACK) \<and>
     (\<exists>v'. voices s' ! 1 = (59, v') \<and> envelope v' = 1 - 2 / 44100 \<and> stage v' = DECAY) \<and>
     (\<exists>v'. voices s' ! 2 = (60, v') \<and> envelope v' = 8 / 10 \<and> stage v' = SUSTAIN) \<and>
     (\<exists>v'. voices s' ! 3 = (69, v') \<and> envelope v' = 0 \<and> stage v' = OFF \<and>
        (\<forall>k. outputs (frames_loop (Suc k) four_stages []) =
             outputs (frames_loop (Suc k) (without 3 four_stages) [])) \<and>
        outputs (run [AudioFrame, KeyPress CHR ''a'', AudioFrame, KeyPoll CHR '' '', AudioFrame]
                   four_stages []) =
        outputs (run [AudioFrame, KeyPress CHR ''a'', AudioFrame, KeyPoll CHR '' '', AudioFrame]
                   (without 3 four_stages) []))"
proof -
  obtain s' l r where fr: "frame four_stages = Inr (s', l, r)"
    using frame_four_stages by blast
  have len: "length (voices four_stages) = 4"
    by (simp add: four_stages_def)
  have n0: "voices four_stages ! 0 = (57, fresh_K\<lparr>note := 57\<rparr>)"
    and n1: "voices four_stages ! 1 = (59, fresh_K\<lparr>note := 59, stage := DECAY, envelope := 1\<rparr>)"
    and n2: "voices four_stages ! 2 =
       (60, fresh_K\<lparr>note := 60, stage := SUSTAIN, envelope := 0.8\<rparr>)"
    and n3: "voices four_stages ! 3 = (69, fresh_K\<lparr>stage := RELEASE, keyDown := False\<rparr>)"
    by (simp_all add: four_stages_def)
  have a: "\<exists>v'. voices s' ! 0 = (57, v') \<and> envelope v' = 1 / 441 \<and> stage v' = ATTACK"
    using envelope_state_machine [OF fr _ n0]
    by (simp add: len fresh_K_def envelope_consts)
  have d: "\<exists>v'. voices s' ! 1 = (59, v') \<and> envelope v' = 1 - 2 / 44100 \<and> stage v' = DECAY"
    using envelope_state_machine [OF fr _ n1]
    by (simp add: len fresh_K_def envelope_consts)
  have su: "\<exists>v'. voices s' ! 2 = (60, v') \<and> envelope v' = 8 / 10 \<and> stage v' = SUSTAIN"
    using envelope_state_machine [OF fr _ n2]
    by (simp add: len fresh_K_def envelope_consts)
  have nt: "\<not> list_ex (triggers 69)
      [KeyPress CHR ''a'', AudioFrame, KeyPoll CHR '' '', AudioFrame]"
    by (simp add: toupper_simps keyNote_simps)
  have r0: "\<exists>v'. voices s' ! 3 = (69, v') \<and> envelope v' = 0 \<and> stage v' = OFF \<and>
      (\<forall>evs. \<not> list_ex (triggers 69) evs \<longrightarrow>
           outputs (run (AudioFrame # evs) four_stages []) =
           outputs (run (AudioFrame # evs) (without 3 four_stages) [])) \<and>
      (\<forall>k. outputs (frames_loop (Suc k) four_stages []) =
           outputs (frames_loop (Suc k) (without 3 four_stages) []))"
    using envelope_state_machine [OF fr _ n3]
    by (simp add: len fresh_K_def envelope_consts del: frames_loop.simps run.simps) blast
  have re: "\<exists>v'. voices s' ! 3 = (69, v') \<and> envelope v' = 0 \<and> stage v' = OFF \<and>
        (\<forall>k. outputs (frames_loop (Suc k) four_stages []) =
             outputs (frames_loop (Suc k) (without 3 four_stages) [])) \<and>
        outputs (run [AudioFrame, KeyPress CHR ''a'', AudioFrame, KeyPoll CHR '' '', AudioFrame]
                   four_stages []) =
        outputs (run [AudioFrame, KeyPress CHR ''a'', AudioFrame, KeyPoll CHR '' '', AudioFrame]
                   (without 3 four_stages) [])"
    using r0 nt by blast
  show ?thesis using fr a d su re by blast
qed

lemma reachable_frame:
  assumes "reachable s"
  shows "\<exists>s' l r. frame s = Inr (s', l, r) \<and> reachable s' \<and>
           voices s' = map (\<lambda>(n, v). (n, advance v)) (voices s)"
proof -
  have "0 \<le> reverbIndex s \<and> reverbIndex s < int (length (reverbDelayBuffer s))"
    using reachable_inv [OF assms] by (simp add: engine_inv_def)
  then have "\<exists>res. frame s = Inr res" unfolding frame_Inr_iff .
  then obtain s' l r where fr: "frame s = Inr (s', l, r)" by auto
  show ?thesis
    using fr reachable.audio [OF assms fr] frame_voices [OF fr] by blast
qed

lemma attack_reachable:
  "k \<le> 440 \<Longrightarrow>
    \<exists>s. reachable s \<and>
        voices s = [(69, fresh_K\<lparr>time := real k * dt, envelope := real k / 441\<rparr>)]"
proof (induction k)
  case 0
  have "voices held_K = [(69, fresh_K\<lparr>time := real 0 * dt, envelope := real 0 / 441\<rparr>)]"
    by (simp add: held_K_eq fresh_K_def)
  with reachable_held_K show ?case by blast
next
  case (Suc k)
  then obtain s where s: "reachable s"
    and vs: "voices s = [(69, fresh_K\<lparr>time := real k * dt, envelope := real k / 441\<rparr>)]"
    by auto
  obtain s' l r where s': "reachable s'"
    and vs': "voices s' = map (\<lambda>(n, v). (n, advance v)) (voices s)"
    using reachable_frame [OF s] by blast
  have "real k + 1 < 441" using Suc.prems by simp
  then have "advance (fresh_K\<lparr>time := real k * dt, envelope := real k / 441\<rparr>) =
      fresh_K\<lparr>time := real (Suc k) * dt, envelope := real (Suc k) / 441\<rparr>"
    by (simp add: advance_ATTACK fresh_K_def envelope_consts field_simps)
  then show ?case using s' vs' vs by auto
qed

lemma decay_reachable:
  "k \<le> 4409 \<Longrightarrow>
    \<exists>s. reachable s \<and>
        voices s = [(69, fresh_K\<lparr>time := real (441 + k) * dt, envelope := 1 - real k / 22050,
                              stage := DECAY\<rparr>)]"
proof (induction k)
  case 0
  obtain s where s: "reachable s"
    and vs: "voices s = [(69, fresh_K\<lparr>time := real 440 * dt, envelope := real 440 / 441\<rparr>)]"
    using attack_reachable [of 440] by auto
  obtain s' l r where s': "reachable s'"
    and vs': "voices s' = map (\<lambda>(n, v). (n, advance v)) (voices s)"
    using reachable_frame [OF s] by blast
  have "advance (fresh_K\<lparr>time := real 440 * dt, envelope := real 440 / 441\<rparr>) =
      fresh_K\<lparr>time := real (441 + 0) * dt, envelope := 1 - real 0 / 22050, stage := DECAY\<rparr>"
    by (simp add: advance_ATTACK fresh_K_def envelope_consts)
  then show ?case using s' vs' vs by auto
next
  case (Suc k)
  then obtain s where s: "reachable s"
    and vs: "voices s = [(69, fresh_K\<lparr>time := real (441 + k) * dt,
                envelope := 1 - real k / 22050, stage := DECAY\<rparr>)]"
    by auto
  obtain s' l r where s': "reachable s'"
    and vs': "voices s' = map (\<lambda>(n, v). (n, advance v)) (voices s)"
    using reachable_frame [OF s] by blast
  have "real k + 1 < 4410" using Suc.prems by simp
  then have "advance (fresh_K\<lparr>time := real (441 + k) * dt, envelope := 1 - real k / 22050,
        stage := DECAY\<rparr>) =
      fresh_K\<lparr>time := real (441 + Suc k) * dt, envelope := 1 - real (Suc k) / 22050,
        stage := DECAY\<rparr>"
    by (simp add: advance_DECAY fresh_K_def envelope_consts field_simps)
  then show ?case using s' vs' vs by auto
qed

lemma sustain_reachable:
  "\<exists>s. reachable s \<and>
      voices s = [(69, fresh_K\<lparr>time := 4851 * dt, envelope := SUSTAIN_LEVEL, stage := SUSTAIN\<rparr>)]"
proof -
  obtain s where s: "reachable s"
    and vs: "voices s = [(69, fresh_K\<lparr>time := real (441 + 4409) * dt,
                envelope := 1 - real 4409 / 22050, stage := DECAY\<rparr>)]"
    using decay_reachable [of 4409] by auto
  obtain s' l r where s': "reachable s'"
    and vs': "voices s' = map (\<lambda>(n, v). (n, advance v)) (voices s)"
    using reachable_frame [OF s] by blast
  have "advance (fresh_K\<lparr>time := real (441 + 4409) * dt, envelope := 1 - real 4409 / 22050,
        stage := DECAY\<rparr>) =
      fresh_K\<lparr>time := 4851 * dt, envelope := SUSTAIN_LEVEL, stage := SUSTAIN\<rparr>"
    by (simp add: advance_DECAY fresh_K_def envelope_consts)
  then show ?thesis using s' vs' vs by auto
qed

lemma reachable_frame_cursor:
  assumes "reachable s"
  shows "\<exists>s' l r. frame s = Inr (s', l, r) \<and> reachable s' \<and>
           reverbIndex s' = (reverbIndex s + 1) mod DELAY_SIZE"
proof -
  have rng: "0 \<le> reverbIndex s" "reverbIndex s < int (length (reverbDelayBuffer s))"
    using reachable_inv [OF assms] by (simp_all add: engine_inv_def)
  obtain s' l r where fr: "frame s = Inr (s', l, r)"
    and idx: "reverbIndex s' = (reverbIndex s + 1) mod DELAY_SIZE"
    using frame_in_range [OF rng] by simp
  show ?thesis
    using fr idx reachable.audio [OF assms fr] by blast
qed

lemma cursor_reachable: "k < 88200 \<Longrightarrow> \<exists>s. reachable s \<and> reverbIndex s = int k"
proof (induction k)
  case 0
  have "reverbIndex init_engine = int 0" by (simp add: init_engine_def)
  with reachable.init show ?case by blast
next
  case (Suc k)
  then obtain s where s: "reachable s" and i: "reverbIndex s = int k" by auto
  obtain s' l r where s': "reachable s'"
    and i': "reverbIndex s' = (reverbIndex s + 1) mod DELAY_SIZE"
    using reachable_frame_cursor [OF s] by blast
  have "reverbIndex s' = int (Suc k)"
    using i' i Suc.prems by (simp add: DELAY_SIZE_def SAMPLE_RATE_def)
  with s' show ?case by blast
qed

section \<open>Instances\<close>

text \<open>The bounds and the four monotonicity cases on reachable states: the key just pressed, the key just released, and the states the callback alone reaches from the first by the end of the attack and of the decay.\<close>

theorem envelope_bounded_monotone_witness:
  "reachable held_K \<and> reachable released_K \<and>
   voices held_K = [(69, fresh_K)] \<and> 0 \<le> envelope fresh_K \<and> envelope fresh_K \<le> 1 \<and>
   (\<exists>s' l r v'. frame held_K = Inr (s', l, r) \<and> voices s' ! 0 = (69, v') \<and>
       envelope fresh_K \<le> envelope v') \<and>
   (\<exists>s' l r v'. frame released_K = Inr (s', l, r) \<and> voices s' ! 0 = (69, v') \<and>
       envelope v' \<le> envelope (fresh_K\<lparr>stage := RELEASE, keyDown := False\<rparr>)) \<and>
   (\<exists>v'. map_of (voices (listener_press CHR ''K'' released_K)) 69 = Some v' \<and>
       envelope v' = envelope (fresh_K\<lparr>stage := RELEASE, keyDown := False\<rparr>)) \<and>
   (\<exists>s v. reachable s \<and> voices s = [(69, v)] \<and> stage v = DECAY \<and>
      (\<exists>s' l r v'. frame s = Inr (s', l, r) \<and> voices s' ! 0 = (69, v') \<and>
         envelope v' \<le> envelope v)) \<and>
   (\<exists>s v. reachable s \<and> voices s = [(69, v)] \<and> stage v = SUSTAIN \<and>
      (\<exists>s' l r v'. frame s = Inr (s', l, r) \<and> voices s' ! 0 = (69, v') \<and>
         envelope v' = envelope v))"
proof -
  have vh: "voices held_K = [(69, fresh_K)]" by (simp add: held_K_eq)
  have vr: "voices released_K = [(69, fresh_K\<lparr>stage := RELEASE, keyDown := False\<rparr>)]"
    by (simp add: released_K_eq)
  have "\<exists>res. frame held_K = Inr res"
    unfolding frame_Inr_iff
    by (simp add: held_K_eq init_engine_def DELAY_SIZE_def SAMPLE_RATE_def)
  then obtain s1 l1 r1 where f1: "frame held_K = Inr (s1, l1, r1)" by auto
  note h = envelope_bounded_monotone [OF reachable_held_K]
  note rl = envelope_bounded_monotone [OF reachable_released_K]
  have b: "0 \<le> envelope fresh_K \<and> envelope fresh_K \<le> 1"
    using h vh by simp
  have a: "\<exists>v'. voices s1 ! 0 = (69, v') \<and> envelope fresh_K \<le> envelope v'"
    using h f1 vh by (auto simp: fresh_K_def)
  have r: "\<exists>v'. voices silent_K ! 0 = (69, v') \<and>
       envelope v' \<le> envelope (fresh_K\<lparr>stage := RELEASE, keyDown := False\<rparr>)"
    using rl frame_released_K vr by (auto simp: fresh_K_def)
  have p: "\<exists>v'. map_of (voices (listener_press CHR ''K'' released_K)) 69 = Some v' \<and>
       envelope v' = envelope (fresh_K\<lparr>stage := RELEASE, keyDown := False\<rparr>)"
  proof -
    from rl have g: "\<exists>v'. map_of (voices (listener_press c released_K)) n = Some v' \<and>
        envelope v' = envelope v" if "map_of (voices released_K) n = Some v" for c n v
      using that by blast
    have "map_of (voices released_K) 69 = Some (fresh_K\<lparr>stage := RELEASE, keyDown := False\<rparr>)"
      by (simp add: vr)
    from g [OF this] show ?thesis .
  qed
  have dc: "\<exists>s v. reachable s \<and> voices s = [(69, v)] \<and> stage v = DECAY \<and>
      (\<exists>s' l r v'. frame s = Inr (s', l, r) \<and> voices s' ! 0 = (69, v') \<and>
         envelope v' \<le> envelope v)"
  proof -
    obtain s where s: "reachable s"
      and vs: "voices s = [(69, fresh_K\<lparr>time := real (441 + 0) * dt,
                  envelope := 1 - real 0 / 22050, stage := DECAY\<rparr>)]"
      using decay_reachable [of 0] by auto
    obtain s' l r where fr: "frame s = Inr (s', l, r)"
      using reachable_frame [OF s] by blast
    have "\<exists>v'. voices s' ! 0 = (69, v') \<and> envelope v' \<le> envelope (fresh_K\<lparr>
        time := real (441 + 0) * dt, envelope := 1 - real 0 / 22050, stage := DECAY\<rparr>)"
      using envelope_bounded_monotone [OF s] fr vs by (auto simp: fresh_K_def)
    then show ?thesis using s vs fr by (auto simp: fresh_K_def)
  qed
  have st: "\<exists>s v. reachable s \<and> voices s = [(69, v)] \<and> stage v = SUSTAIN \<and>
      (\<exists>s' l r v'. frame s = Inr (s', l, r) \<and> voices s' ! 0 = (69, v') \<and>
         envelope v' = envelope v)"
  proof -
    obtain s where s: "reachable s"
      and vs: "voices s = [(69, fresh_K\<lparr>time := 4851 * dt, envelope := SUSTAIN_LEVEL,
                  stage := SUSTAIN\<rparr>)]"
      using sustain_reachable by auto
    obtain s' l r where fr: "frame s = Inr (s', l, r)"
      using reachable_frame [OF s] by blast
    have "\<exists>v'. voices s' ! 0 = (69, v') \<and> envelope v' = envelope (fresh_K\<lparr>
        time := 4851 * dt, envelope := SUSTAIN_LEVEL, stage := SUSTAIN\<rparr>)"
      using envelope_bounded_monotone [OF s] fr vs by (auto simp: fresh_K_def)
    then show ?thesis using s vs fr by (auto simp: fresh_K_def)
  qed
  have rest: "reachable held_K \<and> reachable released_K \<and>
   voices held_K = [(69, fresh_K)] \<and> 0 \<le> envelope fresh_K \<and> envelope fresh_K \<le> 1 \<and>
   (\<exists>s' l r v'. frame held_K = Inr (s', l, r) \<and> voices s' ! 0 = (69, v') \<and>
       envelope fresh_K \<le> envelope v') \<and>
   (\<exists>s' l r v'. frame released_K = Inr (s', l, r) \<and> voices s' ! 0 = (69, v') \<and>
       envelope v' \<le> envelope (fresh_K\<lparr>stage := RELEASE, keyDown := False\<rparr>))"
    using reachable_held_K reachable_released_K vh b a r f1 frame_released_K by blast
  show ?thesis
    using rest p dc st by (intro conjI) blast+
qed

text \<open>The mixer on the empty registry and on the voice of the first key-down.\<close>

theorem mixer_normalises_witness:
  "mix_voices [] = ([], 0) \<and>
   mix_voices [(69, fresh_K)] =
     ([(69, advance fresh_K)], rendered (advance fresh_K) * VOLUME) \<and>
   sounding [(69, advance fresh_K)] = [(69, advance fresh_K)]"
proof -
  have adv: "advance fresh_K = fresh_K\<lparr>time := 1 / 44100, envelope := 1 / 441\<rparr>"
    by (simp add: advance_ATTACK fresh_K_def dt_def envelope_consts)
  have snd: "sounding [(69, advance fresh_K)] = [(69, advance fresh_K)]"
    unfolding adv by (simp add: sounding_def fresh_K_def)
  have e: "mix_voices [] = ([], 0)"
    using mixer_normalises [of "[]" "fst (mix_voices [])" "snd (mix_voices [])"]
    by (simp add: sounding_def prod_eq_iff)
  have o: "mix_voices [(69, fresh_K)] =
     ([(69, advance fresh_K)], rendered (advance fresh_K) * VOLUME)"
    using mixer_normalises [of "[(69, fresh_K)]" "fst (mix_voices [(69, fresh_K)])"
        "snd (mix_voices [(69, fresh_K)])"] snd
    by (simp add: prod_eq_iff)
  show ?thesis using e o snd by simp
qed

text \<open>A frame with the value 1 stored at the cursor, with the feedback 0.5 of the program and with feedback 0.\<close>

theorem reverb_feedback_witness:
  "(\<exists>s'. frame (held_K\<lparr>reverbDelayBuffer := (reverbDelayBuffer held_K)[0 := 1]\<rparr>) =
      Inr (s', snd (mix_voices (voices held_K)) + 1 / 2, snd (mix_voices (voices held_K)) + 1 / 2) \<and>
      reverbDelayBuffer s' ! 0 = snd (mix_voices (voices held_K)) + 1 / 2) \<and>
   (\<exists>s'. frame (held_K\<lparr>reverbDelayBuffer := (reverbDelayBuffer held_K)[0 := 1],
                         reverbFeedback := 0\<rparr>) =
      Inr (s', snd (mix_voices (voices held_K)), snd (mix_voices (voices held_K))))"
proof -
  let ?s = "held_K\<lparr>reverbDelayBuffer := (reverbDelayBuffer held_K)[0 := 1]\<rparr>"
  have rng: "0 \<le> reverbIndex ?s" "reverbIndex ?s < int (length (reverbDelayBuffer ?s))"
    by (simp_all add: held_K_eq init_engine_def DELAY_SIZE_def SAMPLE_RATE_def)
  have rd: "reverbDelayBuffer ?s ! nat (reverbIndex ?s) = 1" "reverbFeedback ?s = 1 / 2"
    "reverbIndex ?s = 0" "voices ?s = voices held_K"
    by (simp_all add: held_K_eq init_engine_def DELAY_SIZE_def SAMPLE_RATE_def REVERB_DECAY_def)
  have one: "\<exists>s'. frame ?s =
      Inr (s', snd (mix_voices (voices held_K)) + 1 / 2, snd (mix_voices (voices held_K)) + 1 / 2) \<and>
      reverbDelayBuffer s' ! 0 = snd (mix_voices (voices held_K)) + 1 / 2"
    using reverb_feedback [OF rng] rd by auto
  let ?z = "?s\<lparr>reverbFeedback := 0\<rparr>"
  have rngz: "0 \<le> reverbIndex ?z" "reverbIndex ?z < int (length (reverbDelayBuffer ?z))"
    using rng by simp_all
  have rdz: "reverbFeedback ?z = 0" "voices ?z = voices held_K" by simp_all
  have two: "\<exists>s'. frame ?z =
      Inr (s', snd (mix_voices (voices held_K)), snd (mix_voices (voices held_K)))"
    using reverb_feedback [OF rngz] rdz by auto
  show ?thesis using one two by simp
qed

text \<open>The first frame of the program, and the frame that wraps the cursor.\<close>

theorem delay_line_cursor_witness:
  "reachable init_engine \<and> length (reverbDelayBuffer init_engine) = 88200 \<and>
   reverbIndex init_engine = 0 \<and>
   (\<exists>s' l r. frame init_engine = Inr (s', l, r) \<and> reverbIndex s' = 1 \<and>
      length (reverbDelayBuffer s') = 88200) \<and>
   (\<exists>s. reachable s \<and> reverbIndex s = 88199 \<and>
      (\<exists>s' l r. frame s = Inr (s', l, r) \<and> reverbIndex s' = 0))"
proof -
  have i: "reverbIndex init_engine = 0" "length (reverbDelayBuffer init_engine) = 88200"
    by (simp_all add: init_engine_def DELAY_SIZE_def SAMPLE_RATE_def)
  have first: "\<exists>s' l r. frame init_engine = Inr (s', l, r) \<and> reverbIndex s' = 1 \<and>
      length (reverbDelayBuffer s') = 88200"
    using delay_line_cursor [OF reachable.init] unfolding i by auto
  obtain s where s: "reachable s" and l: "reverbIndex s = 88199"
    using cursor_reachable [of 88199] by auto
  have last: "\<exists>s' l r. frame s = Inr (s', l, r) \<and> reverbIndex s' = 0"
    using delay_line_cursor [OF s] unfolding l by (auto simp: SAMPLE_RATE_def)
  show ?thesis
    using reachable.init i first s l last by blast
qed

text \<open>A key-down on a voice held at the sustain level.\<close>

theorem retrigger_keeps_envelope_witness:
  "keyNote (toupper CHR ''k'') = Some 69 \<and>
   map_of (voices sustained_K) 69 =
     Some \<lparr>note = 69, phase = 0, time = 1, stage = SUSTAIN, envelope = 8 / 10, keyDown = True\<rparr> \<and>
   map_of (voices (listener_iteration CHR ''k'' sustained_K)) 69 =
     Some \<lparr>note = 69, phase = 0, time = 0, stage = ATTACK, envelope = 8 / 10, keyDown = True\<rparr> \<and>
   map fst (voices (listener_iteration CHR ''k'' sustained_K)) = [69] \<and>
   map_of (voices (listener_iteration CHR ''k'' sustained_K)) 57 = None"
proof -
  have k: "keyNote (toupper CHR ''k'') = Some 69"
    by (simp add: toupper_simps keyNote_simps)
  have m: "map_of (voices sustained_K) 69 =
     Some \<lparr>note = 69, phase = 0, time = 1, stage = SUSTAIN, envelope = 8 / 10, keyDown = True\<rparr>"
    by (simp add: sustained_K_def fresh_K_def)
  have o: "map fst (voices sustained_K) = [69]" "map_of (voices sustained_K) 57 = None"
    by (simp_all add: sustained_K_def)
  show ?thesis
    using retrigger_keeps_envelope [OF k m] k m o by auto
qed

text \<open>Both cases on the state with two held voices.\<close>

theorem key_up_all_or_none_witness:
  "keyNote (toupper CHR '' '') = None \<and>
   voices (listener_iteration CHR '' '' two_held) =
     [(57, fresh_K\<lparr>note := 57, stage := RELEASE, keyDown := False\<rparr>),
      (59, fresh_K\<lparr>note := 59, stage := RELEASE, keyDown := False\<rparr>)] \<and>
   keyNote (toupper CHR ''a'') = Some 57 \<and>
   listener_iteration CHR ''a'' two_held = listener_press CHR ''A'' two_held"
proof -
  have n: "keyNote (toupper CHR '' '') = None" and a: "keyNote (toupper CHR ''a'') = Some 57"
    by (simp_all add: toupper_simps keyNote_simps)
  have v: "voices two_held = [(57, fresh_K\<lparr>note := 57\<rparr>), (59, fresh_K\<lparr>note := 59\<rparr>)]"
    by (simp add: two_held_eq)
  have one: "voices (listener_iteration CHR '' '' two_held) =
     [(57, fresh_K\<lparr>note := 57, stage := RELEASE, keyDown := False\<rparr>),
      (59, fresh_K\<lparr>note := 59, stage := RELEASE, keyDown := False\<rparr>)]"
    using key_up_all_or_none [of "CHR '' ''" two_held] n unfolding v
    by (simp add: fresh_K_def)
  have two: "listener_iteration CHR ''a'' two_held = listener_press CHR ''A'' two_held"
    using key_up_all_or_none [of "CHR ''a''" two_held] a by (simp add: toupper_simps)
  show ?thesis using n a one two by simp
qed

text \<open>A release that completes, the frame after it, and the key-down that reuses the entry.\<close>

theorem voice_entries_persist_witness:
  "reachable released_K \<and> reachable silent_K \<and>
   voices released_K = [(69, fresh_K\<lparr>stage := RELEASE, keyDown := False\<rparr>)] \<and>
   frame released_K = Inr (silent_K, 0, 0) \<and>
   voices silent_K = [(69, fresh_K\<lparr>time := dt, stage := OFF, keyDown := False\<rparr>)] \<and>
   envelope (snd (voices silent_K ! 0)) = 0 \<and> \<not> keyDown (snd (voices silent_K ! 0)) \<and>
   (\<exists>s' l r. frame silent_K = Inr (s', l, r) \<and> voices s' = voices silent_K) \<and>
   map fst (voices (listener_press CHR ''K'' silent_K)) = [69] \<and>
   map_of (voices (listener_press CHR ''K'' silent_K)) 69 = Some (fresh_K\<lparr>time := 0\<rparr>)"
proof -
  have vr: "voices released_K = [(69, fresh_K\<lparr>stage := RELEASE, keyDown := False\<rparr>)]"
    by (simp add: released_K_eq)
  have vs: "voices silent_K = [(69, fresh_K\<lparr>time := dt, stage := OFF, keyDown := False\<rparr>)]"
    by (simp add: silent_K_def)
  note r = voice_entries_persist [OF reachable_released_K]
  note q = voice_entries_persist [OF reachable_silent_K]
  from r have r1: "stage v = RELEASE \<Longrightarrow> stage (snd (voices s' ! i)) = OFF \<Longrightarrow>
      envelope (snd (voices s' ! i)) = 0 \<and> \<not> keyDown (snd (voices s' ! i))"
    if "frame released_K = Inr (s', l, r)" "i < length (voices released_K)"
      "voices released_K ! i = (n, v)" for s' l r i n v
    using that by blast
  have fin: "envelope (snd (voices silent_K ! 0)) = 0 \<and> \<not> keyDown (snd (voices silent_K ! 0))"
    by (rule r1 [OF frame_released_K, of 0 69 "fresh_K\<lparr>stage := RELEASE, keyDown := False\<rparr>"])
      (simp_all add: vr vs)
  have "\<exists>res. frame silent_K = Inr res"
    unfolding frame_Inr_iff
    by (simp add: silent_K_def released_K_eq init_engine_def DELAY_SIZE_def SAMPLE_RATE_def)
  then obtain s2 l2 r2 where f2: "frame silent_K = Inr (s2, l2, r2)" by auto
  from q have q1: "map fst (voices s') = map fst (voices silent_K) \<and>
      (\<forall>i n v. i < length (voices silent_K) \<longrightarrow> voices silent_K ! i = (n, v) \<longrightarrow>
          stage v = OFF \<longrightarrow> voices s' ! i = (n, v))"
    if "frame silent_K = Inr (s', l, r)" for s' l r
    using that by blast
  have skip: "voices s2 = voices silent_K"
    using q1 [OF f2] by (auto simp: vs map_eq_Cons_conv fresh_K_def)
  from q have q2: "map fst (voices (listener_press c silent_K)) = map fst (voices silent_K) \<and>
       map_of (voices (listener_press c silent_K)) n =
         Some (v\<lparr>note := n, stage := ATTACK, keyDown := True, time := 0\<rparr>)"
    if "keyNote c = Some n" "map_of (voices silent_K) n = Some v" for c n v
    using that by blast
  have reuse: "map fst (voices (listener_press CHR ''K'' silent_K)) = [69] \<and>
      map_of (voices (listener_press CHR ''K'' silent_K)) 69 = Some (fresh_K\<lparr>time := 0\<rparr>)"
    using q2 [of "CHR ''K''" 69 "fresh_K\<lparr>time := dt, stage := OFF, keyDown := False\<rparr>"]
    by (simp add: keyNote_simps vs fresh_K_def)
  show ?thesis
    using reachable_released_K reachable_silent_K vr frame_released_K vs fin f2 skip reuse
    by blast
qed

end
